theory Spec2Isabelle
  imports Main "HOL-Library.Word" "HOL-Library.AList"
begin

section \<open>Sharded streaming dump and import (jina\_commons/indexers/dump.py)\<close>

text \<open>
  The module writes a sequence of records (id, vector, metadata) into a directory with
  one sub-directory per shard, each holding the files \<open>ids\<close>, \<open>vectors\<close> and
  \<open>metas\<close>, and reads one shard back through three independent generators.

  Modelling decisions:
  \<^item> Python integers are \<open>int\<close> (sizes that cannot be negative, such as \<open>len\<close>, are
    \<open>nat\<close>); a byte is an \<open>8 word\<close>; a float64 element is its 64-bit pattern.
  \<^item> \<open>sys.byteorder\<close> is a parameter \<open>bo\<close> of every function that depends on it.
  \<^item> The file system is a tree of directories and files, without links and without
    permissions. A \<open>path\<close> is the list of the names from the root directory to a node; a
    name is the bytes of a file name. The \<open>path\<close> argument of the functions is such a
    list. The text \<open>pea_id\<close> that the import functions join to it is not: it is given as
    the bytes of its file-system encoding, split at the separators and resolved against
    the file system (\<open>.\<close>, \<open>..\<close>, empty components, a leading separator, a null
    byte), as \<open>open\<close> does on POSIX.
  \<^item> A raised exception is a value of type \<open>error\<close>. The writer returns the file system
    and the producer as they are when it returns or raises, since nothing is rolled back.
  \<^item> A generator that is run to its end is the list of the items it yields together with
    the exception that ended it, if any. A generator that has not been started is a
    function of the file system it will read.
  \<^item> A Python string is the list of its code points. Text files are read and written in
    UTF-8, the encoding that the specification fixes for the ids file (the code takes the
    preferred encoding of the locale), with strict error handling and without newline
    translation on writing (POSIX); reading uses Python's universal newlines. A file that
    is not valid UTF-8 is modelled as raising \<open>UnicodeDecodeError\<close> before a line is
    yielded, which is what the code does when the file fits the read buffer.
  \<^item> Arrays are one-dimensional. The element cast \<open>astype(float64)\<close> of an array of
    another dtype is a parameter \<open>astype\<close>.
  \<^item> Logging and the progress bar are left out. The parameter \<open>size\<close> is written
    \<open>size'\<close> and the variable \<open>id_\<close> is written \<open>id'\<close>; the leading underscore of
    the private functions is dropped.
\<close>

subsection \<open>Constants, errors and records\<close>

type_synonym byte = "8 word"
type_synonym float64 = "64 word"
type_synonym path = "string list"
type_synonym pystr = "nat list"

datatype byteorder = Little | Big

datatype error =
    DumpPathContainsData  \<comment> \<open>the \<open>Exception\<close> raised by \<open>_handle_dump\<close> for a non-empty target\<close>
  | ZeroDivisionError
  | StopIteration
  | OverflowError
  | ValueError
  | FileNotFoundError
  | FileExistsError
  | NotADirectoryError
  | IsADirectoryError
  | UnicodeEncodeError
  | UnicodeDecodeError

definition BYTE_PADDING :: nat where
  "BYTE_PADDING = 4"

definition EMPTY_BYTES :: "byte list" where
  "EMPTY_BYTES = []"

datatype 'e ndarray = Float64Array "float64 list" | OtherArray "'e list"

datatype 'e vec = NdArray "'e ndarray" | RawBytes "byte list"

text \<open>One item of \<open>GENERATOR_TYPE\<close>: the id, the vector (or \<open>None\<close>), the metadata (or \<open>None\<close>).\<close>

type_synonym 'e rec = "pystr \<times> 'e vec option \<times> byte list option"

subsection \<open>Integers and arrays as bytes\<close>

fun le_bytes :: "nat \<Rightarrow> nat \<Rightarrow> byte list" where
  "le_bytes n 0 = []"
| "le_bytes n (Suc k) = of_nat (n mod 256) # le_bytes (n div 256) k"

fun le_value :: "byte list \<Rightarrow> nat" where
  "le_value [] = 0"
| "le_value (b # bs) = unat b + 256 * le_value bs"

text \<open>\<open>int.to_bytes(length, byteorder)\<close> of a non-negative integer; it raises
  \<open>OverflowError\<close> when the integer does not fit.\<close>

definition to_bytes :: "nat \<Rightarrow> nat \<Rightarrow> byteorder \<Rightarrow> error + byte list" where
  "to_bytes n len bo =
     (if 256 ^ len \<le> n then Inl OverflowError
      else Inr (case bo of Little \<Rightarrow> le_bytes n len | Big \<Rightarrow> rev (le_bytes n len)))"

text \<open>\<open>int.from_bytes(bytes, byteorder)\<close>; the empty byte string gives 0.\<close>

definition from_bytes :: "byte list \<Rightarrow> byteorder \<Rightarrow> nat" where
  "from_bytes bs bo = (case bo of Little \<Rightarrow> le_value bs | Big \<Rightarrow> le_value (rev bs))"

definition float64_bytes :: "byteorder \<Rightarrow> float64 \<Rightarrow> byte list" where
  "float64_bytes bo w =
     (case bo of Little \<Rightarrow> le_bytes (unat w) 8 | Big \<Rightarrow> rev (le_bytes (unat w) 8))"

text \<open>\<open>ndarray.tobytes()\<close> of a float64 array, in native byte order.\<close>

definition tobytes :: "byteorder \<Rightarrow> float64 list \<Rightarrow> byte list" where
  "tobytes bo ws = concat (map (float64_bytes bo) ws)"

fun chunks8 :: "byte list \<Rightarrow> byte list list" where
  "chunks8 (a # b # c # d # e # f # g # h # rest) = [a, b, c, d, e, f, g, h] # chunks8 rest"
| "chunks8 rest = []"

text \<open>\<open>np.frombuffer(buf, dtype=float64)\<close>; it raises \<open>ValueError\<close> when the size of the
  buffer is not a multiple of the element size.\<close>

definition frombuffer :: "byteorder \<Rightarrow> byte list \<Rightarrow> error + float64 list" where
  "frombuffer bo buf =
     (if length buf mod 8 \<noteq> 0 then Inl ValueError
      else Inr (map (\<lambda>c. of_nat (from_bytes c bo)) (chunks8 buf)))"

subsection \<open>Text\<close>

text \<open>The Python string of a literal whose characters are code points below 256.\<close>

definition ascii :: "string \<Rightarrow> pystr" where
  "ascii s = map of_char s"

text \<open>The UTF-8 codec with \<open>errors='strict'\<close>. A surrogate cannot be encoded.\<close>

definition utf8_encode_cp :: "nat \<Rightarrow> error + byte list" where
  "utf8_encode_cp c =
     (if c < 0x80 then Inr [of_nat c]
      else if c < 0x800 then Inr [of_nat (0xC0 + c div 64), of_nat (0x80 + c mod 64)]
      else if 0xD800 \<le> c \<and> c \<le> 0xDFFF then Inl UnicodeEncodeError
      else if c < 0x10000 then
        Inr [of_nat (0xE0 + c div 4096), of_nat (0x80 + c div 64 mod 64),
             of_nat (0x80 + c mod 64)]
      else if c < 0x110000 then
        Inr [of_nat (0xF0 + c div 262144), of_nat (0x80 + c div 4096 mod 64),
             of_nat (0x80 + c div 64 mod 64), of_nat (0x80 + c mod 64)]
      else Inl UnicodeEncodeError)"

fun utf8_encode :: "pystr \<Rightarrow> error + byte list" where
  "utf8_encode [] = Inr []"
| "utf8_encode (c # cs) =
     (case utf8_encode_cp c of
        Inl e \<Rightarrow> Inl e
      | Inr b \<Rightarrow> (case utf8_encode cs of Inl e \<Rightarrow> Inl e | Inr bs \<Rightarrow> Inr (b @ bs)))"

text \<open>Decoding: the first byte of a sequence gives the number of continuation bytes, the
  bits it contributes and the least code point that may be written with that many bytes
  (a shorter form must not be written longer); surrogates and code points from
  \<open>0x110000\<close> on are refused, as are a byte that cannot start a sequence and a sequence
  cut short.\<close>

definition continuation :: "byte \<Rightarrow> bool" where
  "continuation b = (0x80 \<le> unat b \<and> unat b < 0xC0)"

definition tail_value :: "byte list \<Rightarrow> nat" where
  "tail_value bs = foldl (\<lambda>acc b. acc * 64 + (unat b - 0x80)) 0 bs"

definition lead :: "nat \<Rightarrow> (nat \<times> nat \<times> nat) option" where
  "lead n =
     (if n < 0x80 then Some (0, n, 0)
      else if n < 0xC0 then None
      else if n < 0xE0 then Some (1, n - 0xC0, 0x80)
      else if n < 0xF0 then Some (2, n - 0xE0, 0x800)
      else if n < 0xF8 then Some (3, n - 0xF0, 0x10000)
      else None)"

function utf8_decode :: "byte list \<Rightarrow> error + pystr" where
  "utf8_decode [] = Inr []"
| "utf8_decode (b # bs) =
     (case lead (unat b) of
        None \<Rightarrow> Inl UnicodeDecodeError
      | Some (k, hi, lo) \<Rightarrow>
          if length bs < k \<or> \<not> list_all continuation (take k bs) then Inl UnicodeDecodeError
          else
            let c = hi * 64 ^ k + tail_value (take k bs)
            in if c < lo \<or> (0xD800 \<le> c \<and> c \<le> 0xDFFF) \<or> 0x110000 \<le> c
               then Inl UnicodeDecodeError
               else (case utf8_decode (drop k bs) of
                       Inl e \<Rightarrow> Inl e
                     | Inr cs \<Rightarrow> Inr (c # cs)))"
  by pat_completeness auto
termination
  by (relation "measure length") auto

declare utf8_decode.simps(2) [simp del]

definition LF :: nat where
  "LF = 0x0A"

definition CR :: nat where
  "CR = 0x0D"

text \<open>\<open>str.isspace\<close> of one code point, which is what \<open>str.strip\<close> removes: the
  whitespace of the ASCII range and of the Unicode character database (version 6.3 and
  later).\<close>

definition isspace :: "nat \<Rightarrow> bool" where
  "isspace c =
     ((0x09 \<le> c \<and> c \<le> 0x0D) \<or> (0x1C \<le> c \<and> c \<le> 0x20) \<or> c = 0x85 \<or> c = 0xA0
      \<or> c = 0x1680 \<or> (0x2000 \<le> c \<and> c \<le> 0x200A) \<or> c = 0x2028 \<or> c = 0x2029
      \<or> c = 0x202F \<or> c = 0x205F \<or> c = 0x3000)"

definition strip :: "pystr \<Rightarrow> pystr" where
  "strip s = rev (dropWhile isspace (rev (dropWhile isspace s)))"

text \<open>Iterating over a file opened in text mode: a line ends at \<open>\n\<close>, \<open>\r\<close> or
  \<open>\r\n\<close>, each read as \<open>\n\<close>; a last line without a line end is a line too.
  \<open>cur\<close> is the line read so far.\<close>

fun readlines :: "pystr \<Rightarrow> pystr \<Rightarrow> pystr list" where
  "readlines cur [] = (if cur = [] then [] else [cur])"
| "readlines cur [c] =
     (if c = LF \<or> c = CR then [cur @ [LF]] else [cur @ [c]])"
| "readlines cur (c # d # cs) =
     (if c = LF then (cur @ [LF]) # readlines [] (d # cs)
      else if c = CR then
        (if d = LF then (cur @ [LF]) # readlines [] cs
         else (cur @ [LF]) # readlines [] (d # cs))
      else readlines (cur @ [c]) (d # cs))"

text \<open>\<open>str(i)\<close> for an integer, as the bytes of a file name.\<close>

definition digit_char :: "nat \<Rightarrow> char" where
  "digit_char d = char_of (48 + d)"

function str_nat :: "nat \<Rightarrow> string" where
  "str_nat n = (if n < 10 then [digit_char n] else str_nat (n div 10) @ [digit_char (n mod 10)])"
  by pat_completeness auto
termination
  by (relation "measure id") auto

declare str_nat.simps [simp del]

definition str :: "int \<Rightarrow> string" where
  "str i = (if i < 0 then CHR ''-'' # str_nat (nat (- i)) else str_nat (nat i))"

subsection \<open>The file system\<close>

datatype node = File "byte list" | Dir "(string \<times> node) list"

fun lookup :: "node \<Rightarrow> path \<Rightarrow> node option" where
  "lookup n [] = Some n"
| "lookup (File b) (c # cs) = None"
| "lookup (Dir es) (c # cs) =
     (case map_of es c of None \<Rightarrow> None | Some ch \<Rightarrow> lookup ch cs)"

text \<open>\<open>put n p new\<close> replaces or adds the node at \<open>p\<close>; missing directories on the way
  are created, and a file on the way leaves the tree as it is.\<close>

fun put :: "node \<Rightarrow> path \<Rightarrow> node \<Rightarrow> node" where
  "put n [] new = new"
| "put (File b) (c # cs) new = File b"
| "put (Dir es) (c # cs) new =
     Dir (AList.update c
            (put (case map_of es c of None \<Rightarrow> Dir [] | Some ch \<Rightarrow> ch) cs new) es)"

definition os_path_exists :: "node \<Rightarrow> path \<Rightarrow> bool" where
  "os_path_exists fs p = (lookup fs p \<noteq> None)"

text \<open>Whether a strict prefix of the path is a file.\<close>

fun file_on_the_way :: "node \<Rightarrow> path \<Rightarrow> bool" where
  "file_on_the_way n [] = False"
| "file_on_the_way (File b) (c # cs) = True"
| "file_on_the_way (Dir es) (c # cs) =
     (case map_of es c of None \<Rightarrow> False | Some ch \<Rightarrow> file_on_the_way ch cs)"

text \<open>The error of a system call on a path that does not exist: \<open>ENOTDIR\<close> when a file
  stands where a directory is needed, \<open>ENOENT\<close> otherwise.\<close>

definition missing :: "node \<Rightarrow> path \<Rightarrow> error" where
  "missing fs p = (if file_on_the_way fs p then NotADirectoryError else FileNotFoundError)"

text \<open>\<open>os.makedirs(p)\<close> with \<open>exist_ok=False\<close>.\<close>

definition os_makedirs :: "node \<Rightarrow> path \<Rightarrow> error + node" where
  "os_makedirs fs p =
     (if lookup fs p \<noteq> None then Inl FileExistsError
      else if file_on_the_way fs p then Inl NotADirectoryError
      else Inr (put fs p (Dir [])))"

definition os_listdir :: "node \<Rightarrow> path \<Rightarrow> error + string list" where
  "os_listdir fs p =
     (case lookup fs p of
        None \<Rightarrow> Inl (missing fs p)
      | Some (File b) \<Rightarrow> Inl NotADirectoryError
      | Some (Dir es) \<Rightarrow> Inr (map fst es))"

text \<open>\<open>open(p, 'w')\<close> and \<open>open(p, 'wb')\<close>: the file is created or truncated.\<close>

definition open_w :: "node \<Rightarrow> path \<Rightarrow> error + node" where
  "open_w fs p =
     (case lookup fs p of
        Some (Dir es) \<Rightarrow> Inl IsADirectoryError
      | Some (File b) \<Rightarrow> Inr (put fs p (File []))
      | None \<Rightarrow>
          (case lookup fs (butlast p) of
             None \<Rightarrow> Inl (missing fs p)
           | Some (File b) \<Rightarrow> Inl NotADirectoryError
           | Some (Dir es) \<Rightarrow> Inr (put fs p (File []))))"

text \<open>\<open>fh.write(bs)\<close> on a file opened for writing at \<open>p\<close>: the bytes are appended.\<close>

definition fh_write :: "node \<Rightarrow> path \<Rightarrow> byte list \<Rightarrow> node" where
  "fh_write fs p bs =
     (case lookup fs p of Some (File old) \<Rightarrow> put fs p (File (old @ bs)) | _ \<Rightarrow> fs)"

text \<open>\<open>open(p, 'r')\<close> and \<open>open(p, 'rb')\<close>, giving the content of the file.\<close>

definition open_r :: "node \<Rightarrow> path \<Rightarrow> error + byte list" where
  "open_r fs p =
     (case lookup fs p of
        None \<Rightarrow> Inl (missing fs p)
      | Some (Dir es) \<Rightarrow> Inl IsADirectoryError
      | Some (File b) \<Rightarrow> Inr b)"

text \<open>A path that extends a \<open>path\<close> by components that are still to be resolved:
  the result of \<open>os.path.join\<close> of a path and a text. A text that starts with the
  separator replaces the path.\<close>

type_synonym joined = "path \<times> string list"

fun split_sep :: "string \<Rightarrow> string \<Rightarrow> string list" where
  "split_sep cur [] = [cur]"
| "split_sep cur (c # cs) =
     (if c = CHR ''/'' then cur # split_sep [] cs else split_sep (cur @ [c]) cs)"

definition os_path_join :: "path \<Rightarrow> string \<Rightarrow> joined" where
  "os_path_join path pea_id =
     (if pea_id \<noteq> [] \<and> hd pea_id = CHR ''/'' then ([], split_sep [] pea_id)
      else (path, split_sep [] pea_id))"

text \<open>\<open>os.path.join(p, name)\<close> for one of the names \<open>ids\<close>, \<open>vectors\<close>, \<open>metas\<close>.\<close>

definition join_name :: "joined \<Rightarrow> string \<Rightarrow> joined" where
  "join_name p name = (fst p, snd p @ [name])"

text \<open>Resolving components from the directory \<open>cur\<close>: every component, also an empty
  one, \<open>.\<close> and \<open>..\<close>, needs the node reached so far to be a directory; the last
  name need not exist.\<close>

fun resolve :: "node \<Rightarrow> path \<Rightarrow> string list \<Rightarrow> error + path" where
  "resolve fs cur [] = Inr cur"
| "resolve fs cur (c # cs) =
     (case lookup fs cur of
        None \<Rightarrow> Inl (missing fs cur)
      | Some (File b) \<Rightarrow> Inl NotADirectoryError
      | Some (Dir es) \<Rightarrow>
          if c = [] \<or> c = ''.'' then resolve fs cur cs
          else if c = ''..'' then resolve fs (butlast cur) cs
          else resolve fs (cur @ [c]) cs)"

text \<open>\<open>open(p, 'r')\<close> and \<open>open(p, 'rb')\<close> for a joined path. A null byte in the path
  is refused with \<open>ValueError\<close> before the file system is looked at.\<close>

definition open_r_joined :: "node \<Rightarrow> joined \<Rightarrow> error + byte list" where
  "open_r_joined fs p =
     (if list_ex (\<lambda>c. CHR 0x00 \<in> set c) (snd p) then Inl ValueError
      else case resolve fs (fst p) (snd p) of Inl e \<Rightarrow> Inl e | Inr q \<Rightarrow> open_r fs q)"

subsection \<open>The writer\<close>

text \<open>\<open>_get_file_paths\<close>: the paths of the vectors, metas and ids files of a shard.\<close>

definition get_file_paths :: "path \<Rightarrow> path \<times> path \<times> path" where
  "get_file_paths shard_path =
     (shard_path @ [''vectors''], shard_path @ [''metas''], shard_path @ [''ids''])"

text \<open>\<open>_write_shard_files\<close>: pull one record and append it to the three open files.
  The result is the file system, the rest of the producer and the exception raised, if
  any. \<open>next(data)\<close> on an exhausted producer raises \<open>StopIteration\<close>; \<open>to_bytes\<close>
  raises for a payload of \<open>2 ^ 32\<close> bytes or more; writing the id raises when it cannot
  be encoded.\<close>

definition write_shard_files ::
  "byteorder \<Rightarrow> ('e \<Rightarrow> float64) \<Rightarrow> node \<Rightarrow> 'e rec list \<Rightarrow> path \<Rightarrow> path \<Rightarrow> path
     \<Rightarrow> node \<times> 'e rec list \<times> error option" where
  "write_shard_files bo astype fs data ids_fh metas_fh vectors_fh =
     (case data of
        [] \<Rightarrow> (fs, data, Some StopIteration)
      | (id', vec, meta) # data' \<Rightarrow>
          let vec = (case vec of
                       None \<Rightarrow> EMPTY_BYTES
                     | Some (RawBytes b) \<Rightarrow> b
                     | Some (NdArray (Float64Array ws)) \<Rightarrow> tobytes bo ws
                     | Some (NdArray (OtherArray es)) \<Rightarrow> tobytes bo (map astype es))
          in (case to_bytes (length vec) BYTE_PADDING bo of
                Inl e \<Rightarrow> (fs, data', Some e)
              | Inr vec_size \<Rightarrow>
                  let fs1 = fh_write fs vectors_fh (vec_size @ vec);
                      meta = (case meta of None \<Rightarrow> EMPTY_BYTES | Some m \<Rightarrow> m)
                  in (case to_bytes (length meta) BYTE_PADDING bo of
                        Inl e \<Rightarrow> (fs1, data', Some e)
                      | Inr meta_size \<Rightarrow>
                          let fs2 = fh_write fs1 metas_fh (meta_size @ meta)
                          in (case utf8_encode (id' @ [LF]) of
                                Inl e \<Rightarrow> (fs2, data', Some e)
                              | Inr line \<Rightarrow> (fh_write fs2 ids_fh line, data', None)))))"

text \<open>The loop of \<open>_write_shard_data\<close>.\<close>

function write_loop ::
  "byteorder \<Rightarrow> ('e \<Rightarrow> float64) \<Rightarrow> node \<Rightarrow> 'e rec list \<Rightarrow> path \<Rightarrow> path \<Rightarrow> path
     \<Rightarrow> int \<Rightarrow> int \<Rightarrow> node \<times> 'e rec list \<times> error option" where
  "write_loop bo astype fs data ids_fh metas_fh vectors_fh shard_docs_written size_this_shard =
     (if shard_docs_written < size_this_shard then
        (case write_shard_files bo astype fs data ids_fh metas_fh vectors_fh of
           (fs', data', Some e) \<Rightarrow> (fs', data', Some e)
         | (fs', data', None) \<Rightarrow>
             write_loop bo astype fs' data' ids_fh metas_fh vectors_fh
               (shard_docs_written + 1) size_this_shard)
      else (fs, data, None))"
  by pat_completeness auto
termination
  by (relation "measure (\<lambda>(bo, astype, fs, data, i, m, v, written, size'). nat (size' - written))")
    auto

declare write_loop.simps [simp del]

text \<open>\<open>_write_shard_data\<close>: create the directory of the shard, open its three files
  and write \<open>size_this_shard\<close> records. \<open>str(shard_id)\<close> is a single name, so the
  joined path is the path extended by it.\<close>

definition write_shard_data ::
  "byteorder \<Rightarrow> ('e \<Rightarrow> float64) \<Rightarrow> node \<Rightarrow> 'e rec list \<Rightarrow> path \<Rightarrow> int \<Rightarrow> int
     \<Rightarrow> node \<times> 'e rec list \<times> error option" where
  "write_shard_data bo astype fs data path shard_id size_this_shard =
     (let shard_path = path @ [str shard_id] in
      case os_makedirs fs shard_path of
        Inl e \<Rightarrow> (fs, data, Some e)
      | Inr fs1 \<Rightarrow>
          (case get_file_paths shard_path of (vectors_fp, metas_fp, ids_fp) \<Rightarrow>
             (case open_w fs1 vectors_fp of
                Inl e \<Rightarrow> (fs1, data, Some e)
              | Inr fs2 \<Rightarrow>
                  (case open_w fs2 metas_fp of
                     Inl e \<Rightarrow> (fs2, data, Some e)
                   | Inr fs3 \<Rightarrow>
                       (case open_w fs3 ids_fp of
                          Inl e \<Rightarrow> (fs3, data, Some e)
                        | Inr fs4 \<Rightarrow>
                            write_loop bo astype fs4 data ids_fp metas_fp vectors_fp
                              0 size_this_shard)))))"

text \<open>The quota of one shard, as the body of the loop of \<open>_handle_dump\<close> computes it.\<close>

definition size_this_shard :: "int \<Rightarrow> int \<Rightarrow> int list \<Rightarrow> int \<Rightarrow> int" where
  "size_this_shard size_per_shard extra shard_range shard_id =
     (if shard_id = last shard_range then size_per_shard + extra else size_per_shard)"

text \<open>The loop of \<open>_handle_dump\<close> over the shard ids still to be written.\<close>

fun shards_loop ::
  "byteorder \<Rightarrow> ('e \<Rightarrow> float64) \<Rightarrow> node \<Rightarrow> 'e rec list \<Rightarrow> path \<Rightarrow> int \<Rightarrow> int
     \<Rightarrow> int list \<Rightarrow> int list \<Rightarrow> node \<times> 'e rec list \<times> error option" where
  "shards_loop bo astype fs data path size_per_shard extra shard_range [] = (fs, data, None)"
| "shards_loop bo astype fs data path size_per_shard extra shard_range (shard_id # rest) =
     (case write_shard_data bo astype fs data path shard_id
             (size_this_shard size_per_shard extra shard_range shard_id) of
        (fs', data', Some e) \<Rightarrow> (fs', data', Some e)
      | (fs', data', None) \<Rightarrow>
          shards_loop bo astype fs' data' path size_per_shard extra shard_range rest)"

text \<open>\<open>list(range(shards))\<close>.\<close>

definition range_list :: "int \<Rightarrow> int list" where
  "range_list shards = map int [0..<nat shards]"

text \<open>\<open>_handle_dump\<close>. Python's \<open>//\<close> and \<open>%\<close> round as \<open>div\<close> and \<open>mod\<close> on \<open>int\<close>
  do, and raise \<open>ZeroDivisionError\<close> for a zero divisor.\<close>

definition handle_dump ::
  "byteorder \<Rightarrow> ('e \<Rightarrow> float64) \<Rightarrow> node \<Rightarrow> 'e rec list \<Rightarrow> path \<Rightarrow> int \<Rightarrow> int
     \<Rightarrow> node \<times> 'e rec list \<times> error option" where
  "handle_dump bo astype fs data path shards size' =
     (case (if \<not> os_path_exists fs path then os_makedirs fs path else Inr fs) of
        Inl e \<Rightarrow> (fs, data, Some e)
      | Inr fs1 \<Rightarrow>
          (case os_listdir fs1 path of
             Inl e \<Rightarrow> (fs1, data, Some e)
           | Inr names \<Rightarrow>
               if names = [] then
                 (if shards = 0 then (fs1, data, Some ZeroDivisionError)
                  else
                    let size_per_shard = size' div shards;
                        extra = size' mod shards;
                        shard_range = range_list shards
                    in shards_loop bo astype fs1 data path size_per_shard extra
                         shard_range shard_range)
               else (fs1, data, Some DumpPathContainsData)))"

text \<open>\<open>export_dump_streaming\<close> logs and calls \<open>_handle_dump\<close>.\<close>

definition export_dump_streaming ::
  "byteorder \<Rightarrow> ('e \<Rightarrow> float64) \<Rightarrow> node \<Rightarrow> 'e rec list \<Rightarrow> path \<Rightarrow> int \<Rightarrow> int
     \<Rightarrow> node \<times> 'e rec list \<times> error option" where
  "export_dump_streaming bo astype fs data path shards size' =
     handle_dump bo astype fs data path shards size'"

text \<open>The quotas of all shards, in the order of the loop.\<close>

definition quotas :: "int \<Rightarrow> int \<Rightarrow> int list" where
  "quotas size' shards =
     map (size_this_shard (size' div shards) (size' mod shards) (range_list shards))
       (range_list shards)"

subsection \<open>The readers\<close>

text \<open>The result of running a generator to its end: the items it yields and the
  exception that ends it (\<open>None\<close> when it ends normally).\<close>

type_synonym 'a run = "'a list \<times> error option"

definition yield :: "'a \<Rightarrow> 'a run \<Rightarrow> 'a run" where
  "yield x r = (x # fst r, snd r)"

text \<open>The loop of \<open>_vecs_gen\<close> on the bytes not yet read. \<open>fh.read(n)\<close> gives the next
  \<open>n\<close> bytes, or all that are left when there are fewer.\<close>

function vecs_loop :: "byteorder \<Rightarrow> byte list \<Rightarrow> float64 list option run" where
  "vecs_loop bo fh =
     (let next_size = from_bytes (take BYTE_PADDING fh) bo;
          fh = drop BYTE_PADDING fh
      in if next_size \<noteq> 0 then
           (let vec_bytes = take next_size fh;
                fh = drop next_size fh
            in if vec_bytes \<noteq> EMPTY_BYTES then
                 (case frombuffer bo vec_bytes of
                    Inl e \<Rightarrow> ([], Some e)
                  | Inr vec \<Rightarrow> yield (Some vec) (vecs_loop bo fh))
               else yield None (vecs_loop bo fh))
         else ([], None))"
  by pat_completeness auto

termination
  apply (relation "measure (\<lambda>(bo, fh). length fh)")
    apply simp
  subgoal for bo fh
    by (cases fh; cases bo) (auto simp: BYTE_PADDING_def from_bytes_def)
  subgoal for bo fh
    by (cases fh; cases bo) (auto simp: BYTE_PADDING_def from_bytes_def)
  done

declare vecs_loop.simps [simp del]

text \<open>The loop of \<open>_metas_gen\<close>.\<close>

function metas_loop :: "byteorder \<Rightarrow> byte list \<Rightarrow> byte list option run" where
  "metas_loop bo fh =
     (let next_size = from_bytes (take BYTE_PADDING fh) bo;
          fh = drop BYTE_PADDING fh
      in if next_size \<noteq> 0 then
           (let meta = take next_size fh;
                fh = drop next_size fh
            in if meta \<noteq> EMPTY_BYTES then yield (Some meta) (metas_loop bo fh)
               else yield None (metas_loop bo fh))
         else ([], None))"
  by pat_completeness auto
termination
  apply (relation "measure (\<lambda>(bo, fh). length fh)")
    apply simp
  subgoal for bo fh
    by (cases fh; cases bo) (auto simp: BYTE_PADDING_def from_bytes_def)
  subgoal for bo fh
    by (cases fh; cases bo) (auto simp: BYTE_PADDING_def from_bytes_def)
  done

declare metas_loop.simps [simp del]

text \<open>\<open>_ids_gen\<close>, \<open>_vecs_gen\<close> and \<open>_metas_gen\<close>, run to their end on a file system. The
  file is opened when the generator is first pulled.\<close>

definition ids_gen :: "node \<Rightarrow> joined \<Rightarrow> pystr run" where
  "ids_gen fs path =
     (case open_r_joined fs (join_name path ''ids'') of
        Inl e \<Rightarrow> ([], Some e)
      | Inr ids_fh \<Rightarrow>
          (case utf8_decode ids_fh of
             Inl e \<Rightarrow> ([], Some e)
           | Inr text \<Rightarrow> (map strip (readlines [] text), None)))"

definition vecs_gen :: "byteorder \<Rightarrow> node \<Rightarrow> joined \<Rightarrow> float64 list option run" where
  "vecs_gen bo fs path =
     (case open_r_joined fs (join_name path ''vectors'') of
        Inl e \<Rightarrow> ([], Some e)
      | Inr vectors_fh \<Rightarrow> vecs_loop bo vectors_fh)"

definition metas_gen :: "byteorder \<Rightarrow> node \<Rightarrow> joined \<Rightarrow> byte list option run" where
  "metas_gen bo fs path =
     (case open_r_joined fs (join_name path ''metas'') of
        Inl e \<Rightarrow> ([], Some e)
      | Inr metas_fh \<Rightarrow> metas_loop bo metas_fh)"

text \<open>The import functions return generators that have not been started: each is a
  function of the file system it reads when it is consumed. The call itself opens no
  file.\<close>

definition import_vectors ::
  "byteorder \<Rightarrow> path \<Rightarrow> string
     \<Rightarrow> (node \<Rightarrow> pystr run) \<times> (node \<Rightarrow> float64 list option run)" where
  "import_vectors bo path pea_id =
     (let path = os_path_join path pea_id in
      (\<lambda>fs. ids_gen fs path, \<lambda>fs. vecs_gen bo fs path))"

definition import_metas ::
  "byteorder \<Rightarrow> path \<Rightarrow> string
     \<Rightarrow> (node \<Rightarrow> pystr run) \<times> (node \<Rightarrow> byte list option run)" where
  "import_metas bo path pea_id =
     (let path = os_path_join path pea_id in
      (\<lambda>fs. ids_gen fs path, \<lambda>fs. metas_gen bo fs path))"

definition import_metas_and_vectors ::
  "byteorder \<Rightarrow> path \<Rightarrow> string
     \<Rightarrow> (node \<Rightarrow> pystr run) \<times> (node \<Rightarrow> byte list option run)
        \<times> (node \<Rightarrow> float64 list option run)" where
  "import_metas_and_vectors bo path pea_id =
     (let path = os_path_join path pea_id in
      (\<lambda>fs. ids_gen fs path, \<lambda>fs. metas_gen bo fs path, \<lambda>fs. vecs_gen bo fs path))"

subsection \<open>Notions used to state the properties\<close>

text \<open>
  The definitions of this subsection are not functions of the module: they name what the
  properties below speak about (the bytes a record contributes to each file, the records a
  shard receives, the results of reading all shards), each in terms of the definitions above.
\<close>

text \<open>The bytes that \<open>_write_shard_files\<close> writes after the length prefix for a vector: nothing for
  \<open>None\<close>, the bytes themselves for a bytes object, the float64 elements of an array.\<close>

definition vec_payload :: "byteorder \<Rightarrow> ('e \<Rightarrow> float64) \<Rightarrow> 'e vec option \<Rightarrow> byte list" where
  "vec_payload bo astype vec =
     (case vec of
        None \<Rightarrow> EMPTY_BYTES
      | Some (RawBytes b) \<Rightarrow> b
      | Some (NdArray (Float64Array ws)) \<Rightarrow> tobytes bo ws
      | Some (NdArray (OtherArray es)) \<Rightarrow> tobytes bo (map astype es))"

text \<open>The bytes written after the length prefix for the metadata.\<close>

definition meta_payload :: "byte list option \<Rightarrow> byte list" where
  "meta_payload meta = (case meta of None \<Rightarrow> EMPTY_BYTES | Some m \<Rightarrow> m)"

text \<open>A payload after its 4-byte length. (A payload too long for the prefix has no frame; \<open>[]\<close>
  stands for it, and \<open>fits\<close> excludes it.)\<close>

definition frame :: "byteorder \<Rightarrow> byte list \<Rightarrow> byte list" where
  "frame bo payload =
     (case to_bytes (length payload) BYTE_PADDING bo of Inl e \<Rightarrow> [] | Inr s \<Rightarrow> s @ payload)"

text \<open>The string can be written to a text file: the codec does not raise.\<close>

definition encodable :: "pystr \<Rightarrow> bool" where
  "encodable s = (case utf8_encode s of Inl e \<Rightarrow> False | Inr b \<Rightarrow> True)"

text \<open>The bytes of the line that \<open>_write_shard_files\<close> writes for an id. (An id that cannot
  be encoded has no line; \<open>[]\<close> stands for it, and \<open>fits\<close> excludes it.)\<close>

definition id_line :: "pystr \<Rightarrow> byte list" where
  "id_line id' = (case utf8_encode (id' @ [LF]) of Inl e \<Rightarrow> [] | Inr b \<Rightarrow> b)"

text \<open>The record can be written: both payloads are short enough for \<open>to_bytes\<close> not to
  raise, and the id can be encoded.\<close>

definition fits :: "byteorder \<Rightarrow> ('e \<Rightarrow> float64) \<Rightarrow> 'e rec \<Rightarrow> bool" where
  "fits bo astype r =
     (case r of (id', vec, meta) \<Rightarrow>
        length (vec_payload bo astype vec) < 256 ^ BYTE_PADDING
        \<and> length (meta_payload meta) < 256 ^ BYTE_PADDING
        \<and> encodable id')"

text \<open>The directory of a shard with the given contents of its three files.\<close>

definition shard_dir :: "byte list \<Rightarrow> byte list \<Rightarrow> byte list \<Rightarrow> node" where
  "shard_dir V M I = Dir [(''vectors'', File V), (''metas'', File M), (''ids'', File I)]"

text \<open>The contents of the three files of a shard that holds the given records, in their order.\<close>

definition vectors_of :: "byteorder \<Rightarrow> ('e \<Rightarrow> float64) \<Rightarrow> 'e rec list \<Rightarrow> byte list" where
  "vectors_of bo astype recs =
     concat (map (\<lambda>(id', vec, meta). frame bo (vec_payload bo astype vec)) recs)"

definition metas_of :: "byteorder \<Rightarrow> 'e rec list \<Rightarrow> byte list" where
  "metas_of bo recs = concat (map (\<lambda>(id', vec, meta). frame bo (meta_payload meta)) recs)"

definition ids_of :: "'e rec list \<Rightarrow> byte list" where
  "ids_of recs = concat (map (\<lambda>(id', vec, meta). id_line id') recs)"

definition shard_of :: "byteorder \<Rightarrow> ('e \<Rightarrow> float64) \<Rightarrow> 'e rec list \<Rightarrow> node" where
  "shard_of bo astype recs =
     shard_dir (vectors_of bo astype recs) (metas_of bo recs) (ids_of recs)"

text \<open>The number of records that the loop over the shard ids \<open>sids\<close> pulls when the quota of a
  shard is \<open>q\<close> of its id (a quota below 0 pulls nothing).\<close>

definition pulls :: "(int \<Rightarrow> int) \<Rightarrow> int list \<Rightarrow> nat" where
  "pulls q sids = sum_list (map (\<lambda>sid. nat (q sid)) sids)"

text \<open>An id that \<open>_ids_gen\<close> reads back unchanged: no line break in it, no whitespace at either
  end.\<close>

definition valid_id :: "pystr \<Rightarrow> bool" where
  "valid_id s = ((\<forall>c \<in> set s. c \<noteq> LF \<and> c \<noteq> CR)
     \<and> (s \<noteq> [] \<longrightarrow> \<not> isspace (hd s) \<and> \<not> isspace (last s)))"

text \<open>The target of a dump is an empty directory, or is absent and can be created.\<close>

definition empty_target :: "node \<Rightarrow> path \<Rightarrow> bool" where
  "empty_target fs path =
     (lookup fs path = Some (Dir []) \<or> (lookup fs path = None \<and> \<not> file_on_the_way fs path))"

text \<open>The float64 elements that are written for an array.\<close>

definition float64_of :: "('e \<Rightarrow> float64) \<Rightarrow> 'e ndarray \<Rightarrow> float64 list" where
  "float64_of astype a = (case a of Float64Array ws \<Rightarrow> ws | OtherArray es \<Rightarrow> map astype es)"

text \<open>The records of the round trip: a valid id that can be encoded, a non-empty array,
  non-empty metadata, payloads that fit their prefix.\<close>

definition storable :: "byteorder \<Rightarrow> ('e \<Rightarrow> float64) \<Rightarrow> 'e rec \<Rightarrow> bool" where
  "storable bo astype r =
     (case r of (id', vec, meta) \<Rightarrow>
        valid_id id'
        \<and> (case vec of Some (NdArray a) \<Rightarrow> float64_of astype a \<noteq> [] | _ \<Rightarrow> False)
        \<and> (case meta of Some m \<Rightarrow> m \<noteq> [] | None \<Rightarrow> False)
        \<and> fits bo astype r)"

text \<open>What is expected back for a vector.\<close>

definition read_vec :: "('e \<Rightarrow> float64) \<Rightarrow> 'e vec option \<Rightarrow> float64 list option" where
  "read_vec astype vec =
     (case vec of Some (NdArray a) \<Rightarrow> Some (float64_of astype a) | _ \<Rightarrow> None)"

text \<open>\<open>import_metas_and_vectors\<close> on a shard, with its three generators run to their end on a
  file system.\<close>

definition import_shard ::
  "byteorder \<Rightarrow> node \<Rightarrow> path \<Rightarrow> string
     \<Rightarrow> pystr run \<times> byte list option run \<times> float64 list option run" where
  "import_shard bo fs path pea_id =
     (case import_metas_and_vectors bo path pea_id of
        (ids, metas, vecs) \<Rightarrow> (ids fs, metas fs, vecs fs))"

text \<open>The same for the shards \<open>0\<close> to \<open>shards - 1\<close>, in this order, and the concatenation of what
  the generators yield; \<open>imports_ok\<close> says that no generator raised.\<close>

definition import_all ::
  "byteorder \<Rightarrow> node \<Rightarrow> path \<Rightarrow> int
     \<Rightarrow> (pystr run \<times> byte list option run \<times> float64 list option run) list" where
  "import_all bo fs path shards =
     map (\<lambda>i. import_shard bo fs path (str (int i))) [0..<nat shards]"

definition imported_ids :: "byteorder \<Rightarrow> node \<Rightarrow> path \<Rightarrow> int \<Rightarrow> pystr list" where
  "imported_ids bo fs path shards =
     concat (map (\<lambda>(ids, metas, vecs). fst ids) (import_all bo fs path shards))"

definition imported_metas ::
  "byteorder \<Rightarrow> node \<Rightarrow> path \<Rightarrow> int \<Rightarrow> byte list option list" where
  "imported_metas bo fs path shards =
     concat (map (\<lambda>(ids, metas, vecs). fst metas) (import_all bo fs path shards))"

definition imported_vecs ::
  "byteorder \<Rightarrow> node \<Rightarrow> path \<Rightarrow> int \<Rightarrow> float64 list option list" where
  "imported_vecs bo fs path shards =
     concat (map (\<lambda>(ids, metas, vecs). fst vecs) (import_all bo fs path shards))"

definition imports_ok :: "byteorder \<Rightarrow> node \<Rightarrow> path \<Rightarrow> int \<Rightarrow> bool" where
  "imports_ok bo fs path shards =
     list_all (\<lambda>(ids, metas, vecs). snd ids = None \<and> snd metas = None \<and> snd vecs = None)
       (import_all bo fs path shards)"

text \<open>The records of shard \<open>i\<close> in a strict sequential partition of \<open>data\<close> by the quotas: those
  after the quotas of the shards before it, as many as its own quota.\<close>

definition shard_slice :: "int \<Rightarrow> int \<Rightarrow> 'a list \<Rightarrow> nat \<Rightarrow> 'a list" where
  "shard_slice size' shards data i =
     take (nat (quotas size' shards ! i)) (drop (nat (sum_list (take i (quotas size' shards)))) data)"

text \<open>Writing the shards of a plan, the list of the shard ids with their quotas: each
  shard in turn is written by \<open>_write_shard_data\<close> with its quota, until one raises.\<close>

fun write_plan ::
  "byteorder \<Rightarrow> ('e \<Rightarrow> float64) \<Rightarrow> node \<Rightarrow> 'e rec list \<Rightarrow> path \<Rightarrow> (int \<times> int) list
     \<Rightarrow> node \<times> 'e rec list \<times> error option" where
  "write_plan bo astype fs data path [] = (fs, data, None)"
| "write_plan bo astype fs data path ((shard_id, quota) # rest) =
     (case write_shard_data bo astype fs data path shard_id quota of
        (fs', data', Some e) \<Rightarrow> (fs', data', Some e)
      | (fs', data', None) \<Rightarrow> write_plan bo astype fs' data' path rest)"

text \<open>\<open>data'\<close> is what is left of the producer \<open>data\<close> after at most \<open>k\<close> pulls.\<close>

definition pulled :: "'a list \<Rightarrow> 'a list \<Rightarrow> nat \<Rightarrow> bool" where
  "pulled data data' k = (\<exists>m \<le> k. data' = drop m data)"

text \<open>The path is a directory.\<close>

definition is_dir :: "node \<Rightarrow> path \<Rightarrow> bool" where
  "is_dir fs p = (case lookup fs p of Some (Dir es) \<Rightarrow> True | _ \<Rightarrow> False)"

text \<open>A text that names one entry of a directory: not empty, not \<open>.\<close> or \<open>..\<close>, without
  separator and without null byte. \<open>str(i)\<close> is such a name.\<close>

definition plain_name :: "string \<Rightarrow> bool" where
  "plain_name s =
     (s \<noteq> [] \<and> s \<noteq> ''.'' \<and> s \<noteq> ''..'' \<and> CHR ''/'' \<notin> set s \<and> CHR 0x00 \<notin> set s)"

section \<open>The sharding plan\<close>

lemma range_list_last: "1 \<le> shards \<Longrightarrow> last (range_list shards) = shards - 1"
  by (cases "nat shards") (auto simp: range_list_def last_map)

lemma range_list_Suc:
  "nat shards = Suc n \<Longrightarrow> range_list shards = map int [0..<n] @ [int n]"
  by (simp add: range_list_def)

lemma quotas_eq:
  assumes "1 \<le> shards"
  shows "quotas size' shards =
    replicate (nat shards - 1) (size' div shards) @ [size' div shards + size' mod shards]"
proof -
  obtain n where n: "nat shards = Suc n"
    using assms by (cases "nat shards") auto
  have l: "last (range_list shards) = int n"
    using range_list_last[OF assms] n by linarith
  have "map (size_this_shard (size' div shards) (size' mod shards) (range_list shards))
          (map int [0..<n])
     = replicate n (size' div shards)"
    by (auto simp: size_this_shard_def l intro!: replicate_eqI)
  then show ?thesis
    by (simp add: quotas_def range_list_Suc[OF n] n size_this_shard_def
        l[unfolded range_list_Suc[OF n]])
qed

section \<open>Bytes and text\<close>

lemma le_bytes_length: "length (le_bytes n k) = k"
  by (induction k arbitrary: n) auto

lemma le_value_le_bytes: "le_value (le_bytes n k) = n mod 256 ^ k"
proof (induction k arbitrary: n)
  case 0
  then show ?case by simp
next
  case (Suc k)
  have "unat (of_nat (n mod 256) :: byte) = n mod 256"
    by (simp add: unat_of_nat)
  then show ?case
    using Suc by (simp add: mod_mult2_eq)
qed

lemma to_bytes_Inr:
  "n < 256 ^ len \<Longrightarrow> \<exists>b. to_bytes n len bo = Inr b \<and> length b = len \<and> from_bytes b bo = n"
  by (cases bo) (auto simp: to_bytes_def from_bytes_def le_bytes_length le_value_le_bytes)

lemma to_bytes_InrD:
  "to_bytes n len bo = Inr b \<Longrightarrow> n < 256 ^ len \<and> length b = len \<and> from_bytes b bo = n"
  by (cases bo) (auto simp: to_bytes_def from_bytes_def le_bytes_length le_value_le_bytes split: if_splits)

lemma float64_bytes_length: "length (float64_bytes bo w) = 8"
  by (cases bo) (auto simp: float64_bytes_def le_bytes_length)

lemma from_bytes_float64_bytes: "of_nat (from_bytes (float64_bytes bo w) bo) = w"
proof -
  have "unat w < 256 ^ 8"
    using unsigned_less[of w, where 'a=nat] by simp
  then show ?thesis
    by (cases bo) (auto simp: float64_bytes_def from_bytes_def le_value_le_bytes)
qed

lemma tobytes_length: "length (tobytes bo ws) = 8 * length ws"
  by (induction ws) (auto simp: tobytes_def float64_bytes_length)

lemma chunks8_append: "length xs = 8 \<Longrightarrow> chunks8 (xs @ rest) = xs # chunks8 rest"
  by (auto simp: length_Suc_conv eval_nat_numeral)

lemma chunks8_tobytes: "chunks8 (tobytes bo ws) = map (float64_bytes bo) ws"
  by (induction ws) (auto simp: tobytes_def chunks8_append float64_bytes_length)

lemma frombuffer_tobytes: "frombuffer bo (tobytes bo ws) = Inr ws"
  by (simp add: frombuffer_def tobytes_length chunks8_tobytes from_bytes_float64_bytes
      map_idI)

lemma unat_byte: "n < 256 \<Longrightarrow> unat (of_nat n :: byte) = n"
  by (simp add: unat_of_nat)

lemma utf8_decode_cp:
  assumes "utf8_encode_cp c = Inr b"
  shows "utf8_decode (b @ rest)
    = (case utf8_decode rest of Inl e \<Rightarrow> Inl e | Inr cs \<Rightarrow> Inr (c # cs))"
proof -
  consider "c < 0x80" | "0x80 \<le> c" "c < 0x800" | "0x800 \<le> c" "c < 0xD800"
    | "0xDFFF < c" "c < 0x10000" | "0x10000 \<le> c" "c < 0x110000"
    using assms by (auto simp: utf8_encode_cp_def split: if_splits)
  then show ?thesis
  proof cases
    case 1
    define b1 :: byte where "b1 = of_nat (c)"
    have b: "b = [b1]"
      using assms 1 by (simp add: utf8_encode_cp_def b1_def)
    have lb1: "c < 256"
      using 1 by simp
    have ub1: "unat b1 = c"
      unfolding b1_def by (rule unat_byte[OF lb1])
    show ?thesis
      using 1 unfolding b
      by (simp add: utf8_decode.simps(2) ub1 lead_def tail_value_def continuation_def)
  next
    case 2
    have d: "c div 64 < 32"
      using 2 by arith
    define b1 :: byte where "b1 = of_nat (0xC0 + c div 64)"
    define b2 :: byte where "b2 = of_nat (0x80 + c mod 64)"
    have b: "b = [b1, b2]"
      using assms 2 by (simp add: utf8_encode_cp_def b1_def b2_def)
    have lb1: "0xC0 + c div 64 < 256"
      using 2 by simp
    have ub1: "unat b1 = 0xC0 + c div 64"
      unfolding b1_def by (rule unat_byte[OF lb1])
    have lb2: "0x80 + c mod 64 < 256"
      using 2 by simp
    have ub2: "unat b2 = 0x80 + c mod 64"
      unfolding b2_def by (rule unat_byte[OF lb2])
    show ?thesis
      using 2 unfolding b
      by (simp add: utf8_decode.simps(2) ub1 ub2 d lead_def tail_value_def continuation_def)
  next
    case 3
    have d: "c div 4096 < 16"
      using 3 by arith
    define b1 :: byte where "b1 = of_nat (0xE0 + c div 4096)"
    define b2 :: byte where "b2 = of_nat (0x80 + c div 64 mod 64)"
    define b3 :: byte where "b3 = of_nat (0x80 + c mod 64)"
    have b: "b = [b1, b2, b3]"
      using assms 3 by (simp add: utf8_encode_cp_def b1_def b2_def b3_def)
    have lb1: "0xE0 + c div 4096 < 256"
      using 3 by simp
    have ub1: "unat b1 = 0xE0 + c div 4096"
      unfolding b1_def by (rule unat_byte[OF lb1])
    have lb2: "0x80 + c div 64 mod 64 < 256"
      using 3 by simp
    have ub2: "unat b2 = 0x80 + c div 64 mod 64"
      unfolding b2_def by (rule unat_byte[OF lb2])
    have lb3: "0x80 + c mod 64 < 256"
      using 3 by simp
    have ub3: "unat b3 = 0x80 + c mod 64"
      unfolding b3_def by (rule unat_byte[OF lb3])
    have "c mod (64 * 64) = 64 * (c div 64 mod 64) + c mod 64"
      by (rule mod_mult2_eq)
    then have m: "c mod 4096 = c div 64 mod 64 * 64 + c mod 64"
      by simp
    have v: "c div 4096 * 4096 + (c div 64 mod 64 * 64 + c mod 64) = c"
      unfolding m[symmetric] by simp
    show ?thesis
      using 3 unfolding b
      by (simp add: utf8_decode.simps(2) ub1 ub2 ub3 d lead_def tail_value_def continuation_def v)
  next
    case 4
    have d: "c div 4096 < 16"
      using 4 by arith
    define b1 :: byte where "b1 = of_nat (0xE0 + c div 4096)"
    define b2 :: byte where "b2 = of_nat (0x80 + c div 64 mod 64)"
    define b3 :: byte where "b3 = of_nat (0x80 + c mod 64)"
    have b: "b = [b1, b2, b3]"
      using assms 4 by (simp add: utf8_encode_cp_def b1_def b2_def b3_def)
    have lb1: "0xE0 + c div 4096 < 256"
      using 4 by simp
    have ub1: "unat b1 = 0xE0 + c div 4096"
      unfolding b1_def by (rule unat_byte[OF lb1])
    have lb2: "0x80 + c div 64 mod 64 < 256"
      using 4 by simp
    have ub2: "unat b2 = 0x80 + c div 64 mod 64"
      unfolding b2_def by (rule unat_byte[OF lb2])
    have lb3: "0x80 + c mod 64 < 256"
      using 4 by simp
    have ub3: "unat b3 = 0x80 + c mod 64"
      unfolding b3_def by (rule unat_byte[OF lb3])
    have "c mod (64 * 64) = 64 * (c div 64 mod 64) + c mod 64"
      by (rule mod_mult2_eq)
    then have m: "c mod 4096 = c div 64 mod 64 * 64 + c mod 64"
      by simp
    have v: "c div 4096 * 4096 + (c div 64 mod 64 * 64 + c mod 64) = c"
      unfolding m[symmetric] by simp
    show ?thesis
      using 4 unfolding b
      by (simp add: utf8_decode.simps(2) ub1 ub2 ub3 d lead_def tail_value_def continuation_def v)
  next
    case 5
    have d: "c div 262144 < 8"
      using 5 by arith
    define b1 :: byte where "b1 = of_nat (0xF0 + c div 262144)"
    define b2 :: byte where "b2 = of_nat (0x80 + c div 4096 mod 64)"
    define b3 :: byte where "b3 = of_nat (0x80 + c div 64 mod 64)"
    define b4 :: byte where "b4 = of_nat (0x80 + c mod 64)"
    have b: "b = [b1, b2, b3, b4]"
      using assms 5 by (simp add: utf8_encode_cp_def b1_def b2_def b3_def b4_def)
    have lb1: "0xF0 + c div 262144 < 256"
      using 5 by simp
    have ub1: "unat b1 = 0xF0 + c div 262144"
      unfolding b1_def by (rule unat_byte[OF lb1])
    have lb2: "0x80 + c div 4096 mod 64 < 256"
      using 5 by simp
    have ub2: "unat b2 = 0x80 + c div 4096 mod 64"
      unfolding b2_def by (rule unat_byte[OF lb2])
    have lb3: "0x80 + c div 64 mod 64 < 256"
      using 5 by simp
    have ub3: "unat b3 = 0x80 + c div 64 mod 64"
      unfolding b3_def by (rule unat_byte[OF lb3])
    have lb4: "0x80 + c mod 64 < 256"
      using 5 by simp
    have ub4: "unat b4 = 0x80 + c mod 64"
      unfolding b4_def by (rule unat_byte[OF lb4])
    have "c mod (64 * 64) = 64 * (c div 64 mod 64) + c mod 64"
      by (rule mod_mult2_eq)
    then have m: "c mod 4096 = c div 64 mod 64 * 64 + c mod 64"
      by simp
    have "c mod (4096 * 64) = 4096 * (c div 4096 mod 64) + c mod 4096"
      by (rule mod_mult2_eq)
    then have n: "c mod 262144 = c div 4096 mod 64 * 4096 + (c div 64 mod 64 * 64 + c mod 64)"
      by (simp add: m)
    have v: "c div 262144 * 262144 + (c div 4096 mod 64 * 4096 + (c div 64 mod 64 * 64 + c mod 64)) = c"
      unfolding n[symmetric] by simp
    then have v': "c div 262144 * 262144 +
        (4096 * (c div 4096 mod 64) + c div 64 mod 64 * 64 + c mod 64) = c"
      by (simp add: ac_simps)
    show ?thesis
      using 5 unfolding b
      by (simp add: utf8_decode.simps(2) ub1 ub2 ub3 ub4 d lead_def tail_value_def continuation_def v v')
  qed
qed

lemma utf8_encode_append:
  "utf8_encode (a @ b) =
     (case utf8_encode a of
        Inl e \<Rightarrow> Inl e
      | Inr x \<Rightarrow> (case utf8_encode b of Inl e \<Rightarrow> Inl e | Inr y \<Rightarrow> Inr (x @ y)))"
  by (induction a) (auto split: sum.splits)

lemma utf8_decode_encode:
  "utf8_encode s = Inr b \<Longrightarrow>
     utf8_decode (b @ rest)
       = (case utf8_decode rest of Inl e \<Rightarrow> Inl e | Inr cs \<Rightarrow> Inr (s @ cs))"
proof (induction s arbitrary: b)
  case Nil
  then show ?case by (simp split: sum.splits)
next
  case (Cons c s)
  from Cons.prems obtain x y where
    x: "utf8_encode_cp c = Inr x" and y: "utf8_encode s = Inr y" and b: "b = x @ y"
    by (auto split: sum.splits)
  show ?case
    unfolding b append_assoc utf8_decode_cp[OF x] Cons.IH[OF y]
    by (simp split: sum.splits)
qed

lemma utf8_encode_cp_LF: "utf8_encode_cp LF = Inr [10]"
  by (simp add: utf8_encode_cp_def LF_def)

lemma encodable_line: "encodable (s @ [LF]) = encodable s"
  by (simp add: encodable_def utf8_encode_append utf8_encode_cp_LF split: sum.splits)

lemma id_line_encodable:
  "encodable s \<Longrightarrow> utf8_encode (s @ [LF]) = Inr (id_line s)"
  by (simp add: encodable_def id_line_def utf8_encode_append utf8_encode_cp_LF
      split: sum.splits)

lemma id_line_eq:
  "utf8_encode s = Inr b \<Longrightarrow> id_line s = b @ [10]"
  by (simp add: id_line_def utf8_encode_append utf8_encode_cp_LF)

section \<open>The file system\<close>

lemma lookup_Dir_Nil: "lookup (Dir []) (c # cs) = None"
  by simp

lemma no_file_on_the_way_empty: "\<not> file_on_the_way (Dir []) cs"
  by (cases cs) auto

lemma put_put: "put (put n p a) (p @ q) b = put n p (put a q b)"
proof (induction p arbitrary: n)
  case Nil
  then show ?case by simp
next
  case (Cons c cs)
  show ?case
  proof (cases n)
    case (File x)
    then show ?thesis by simp
  next
    case (Dir es)
    then show ?thesis
      using Cons by (simp add: update_conv')
  qed
qed

lemma lookup_put:
  "\<not> file_on_the_way n p \<Longrightarrow> lookup (put n p a) (p @ q) = lookup a q"
proof (induction p arbitrary: n)
  case Nil
  then show ?case by simp
next
  case (Cons c cs)
  show ?case
  proof (cases n)
    case (File x)
    then show ?thesis using Cons.prems by simp
  next
    case (Dir es)
    then show ?thesis
      using Cons by (auto simp: update_conv' no_file_on_the_way_empty split: option.splits)
  qed
qed

lemma lookup_put_other:
  "a \<noteq> b \<Longrightarrow> lookup (put n (r @ [a]) x) (r @ b # q) = lookup n (r @ b # q)"
proof (induction r arbitrary: n)
  case Nil
  then show ?case by (cases n) (auto simp: update_conv')
next
  case (Cons c cs)
  show ?case
  proof (cases n)
    case (File x)
    then show ?thesis by simp
  next
    case (Dir es)
    show ?thesis
    proof (cases "map_of es c")
      case None
      have "lookup (Dir []) (cs @ b # q) = None"
        by (cases cs) auto
      then show ?thesis
        using Dir None Cons.IH[OF Cons.prems, of "Dir []"] by (simp add: update_conv')
    next
      case (Some ch)
      then show ?thesis
        using Dir Cons.IH[OF Cons.prems, of ch] by (simp add: update_conv')
    qed
  qed
qed

lemma lookup_put_parent:
  "lookup n r = Some (Dir es) \<Longrightarrow> lookup (put n (r @ [a]) x) r = Some (Dir (AList.update a x es))"
proof (induction r arbitrary: n)
  case Nil
  then show ?case by simp
next
  case (Cons c cs)
  then show ?case
    by (cases n) (auto simp: update_conv' split: option.splits)
qed

lemma dir_no_file_on_the_way:
  "lookup n r = Some (Dir es) \<Longrightarrow> \<not> file_on_the_way n (r @ [a])"
proof (induction r arbitrary: n)
  case Nil
  then show ?case by (auto split: option.splits)
next
  case (Cons c cs)
  then show ?case
    by (cases n) (auto split: option.splits)
qed

lemma lookup_child:
  "lookup n r = Some (Dir es) \<Longrightarrow> lookup n (r @ c # q) = (case map_of es c of None \<Rightarrow> None | Some ch \<Rightarrow> lookup ch q)"
proof (induction r arbitrary: n)
  case Nil
  then show ?case by simp
next
  case (Cons c cs)
  then show ?case
    by (cases n) (auto split: option.splits)
qed

lemma lookup_append:
  "lookup n (p @ q) = (case lookup n p of None \<Rightarrow> None | Some m \<Rightarrow> lookup m q)"
proof (induction p arbitrary: n)
  case Nil
  then show ?case by simp
next
  case (Cons c cs)
  then show ?case
    by (cases n) (auto split: option.splits)
qed

section \<open>Writing one shard\<close>

lemma fh_write_vectors:
  "\<not> file_on_the_way fs sp \<Longrightarrow>
   fh_write (put fs sp (shard_dir V M I)) (sp @ [''vectors'']) bs = put fs sp (shard_dir (V @ bs) M I)"
  by (simp add: fh_write_def lookup_put put_put shard_dir_def)

lemma fh_write_metas:
  "\<not> file_on_the_way fs sp \<Longrightarrow>
   fh_write (put fs sp (shard_dir V M I)) (sp @ [''metas'']) bs = put fs sp (shard_dir V (M @ bs) I)"
  by (simp add: fh_write_def lookup_put put_put shard_dir_def)

lemma fh_write_ids:
  "\<not> file_on_the_way fs sp \<Longrightarrow>
   fh_write (put fs sp (shard_dir V M I)) (sp @ [''ids'']) bs = put fs sp (shard_dir V M (I @ bs))"
  by (simp add: fh_write_def lookup_put put_put shard_dir_def)

lemma write_shard_files_Nil:
  "write_shard_files bo astype fs [] ids_fh metas_fh vectors_fh = (fs, [], Some StopIteration)"
  by (simp add: write_shard_files_def)

lemma frame_fits:
  "length b < 256 ^ BYTE_PADDING \<Longrightarrow> \<exists>s. to_bytes (length b) BYTE_PADDING bo = Inr s \<and> frame bo b = s @ b"
  using to_bytes_Inr[of "length b" BYTE_PADDING bo] by (auto simp: frame_def)

lemma write_shard_files_step:
  assumes "\<not> file_on_the_way fs sp"
    and "length (vec_payload bo astype vec) < 256 ^ BYTE_PADDING"
    and "length (meta_payload meta) < 256 ^ BYTE_PADDING"
  shows "write_shard_files bo astype (put fs sp (shard_dir V M I)) ((id', vec, meta) # data')
           (sp @ [''ids'']) (sp @ [''metas'']) (sp @ [''vectors''])
       = (case utf8_encode (id' @ [LF]) of
            Inl e \<Rightarrow>
              (put fs sp (shard_dir (V @ frame bo (vec_payload bo astype vec))
                 (M @ frame bo (meta_payload meta)) I), data', Some e)
          | Inr line \<Rightarrow>
              (put fs sp (shard_dir (V @ frame bo (vec_payload bo astype vec))
                 (M @ frame bo (meta_payload meta)) (I @ line)), data', None))"
proof -
  let ?v = "vec_payload bo astype vec" and ?m = "meta_payload meta"
  from assms(2,3) obtain s1 s2 where
    s1: "to_bytes (length ?v) BYTE_PADDING bo = Inr s1" "frame bo ?v = s1 @ ?v" and
    s2: "to_bytes (length ?m) BYTE_PADDING bo = Inr s2" "frame bo ?m = s2 @ ?m"
    using frame_fits[of ?v bo] frame_fits[of ?m bo] by auto
  have v: "(case vec of
              None \<Rightarrow> EMPTY_BYTES
            | Some (RawBytes b) \<Rightarrow> b
            | Some (NdArray (Float64Array ws)) \<Rightarrow> tobytes bo ws
            | Some (NdArray (OtherArray es)) \<Rightarrow> tobytes bo (map astype es)) = ?v"
    by (simp add: vec_payload_def)
  have m: "(case meta of None \<Rightarrow> EMPTY_BYTES | Some m \<Rightarrow> m) = ?m"
    by (simp add: meta_payload_def)
  show ?thesis
    unfolding write_shard_files_def
    by (simp only: list.case prod.case Let_def v m s1 s2 sum.case
        fh_write_vectors[OF assms(1)] fh_write_metas[OF assms(1)] fh_write_ids[OF assms(1)])
qed

lemma write_shard_files_Cons:
  assumes "\<not> file_on_the_way fs sp" and "fits bo astype r"
  shows "write_shard_files bo astype (put fs sp (shard_dir V M I)) (r # data')
           (sp @ [''ids'']) (sp @ [''metas'']) (sp @ [''vectors''])
       = (put fs sp (shard_dir (V @ vectors_of bo astype [r]) (M @ metas_of bo [r]) (I @ ids_of [r])),
          data', None)"
proof -
  obtain id' vec meta where r: "r = (id', vec, meta)"
    by (cases r) auto
  have f: "length (vec_payload bo astype vec) < 256 ^ BYTE_PADDING"
    "length (meta_payload meta) < 256 ^ BYTE_PADDING" "encodable id'"
    using assms(2) by (simp_all add: fits_def r)
  show ?thesis
    unfolding r write_shard_files_step[OF assms(1) f(1,2)] id_line_encodable[OF f(3)]
    by (simp add: vectors_of_def metas_of_def ids_of_def)
qed

lemma vectors_of_append: "vectors_of bo astype (xs @ ys) = vectors_of bo astype xs @ vectors_of bo astype ys"
  by (simp add: vectors_of_def)

lemma metas_of_append: "metas_of bo (xs @ ys) = metas_of bo xs @ metas_of bo ys"
  by (simp add: metas_of_def)

lemma ids_of_append: "ids_of (xs @ ys) = ids_of xs @ ids_of ys"
  by (simp add: ids_of_def)

lemma write_loop_fits:
  assumes "\<not> file_on_the_way fs sp"
  shows "k = nat (quota - written) \<Longrightarrow> \<forall>r \<in> set (take k data). fits bo astype r \<Longrightarrow>
    write_loop bo astype (put fs sp (shard_dir V M I)) data
           (sp @ [''ids'']) (sp @ [''metas'']) (sp @ [''vectors'']) written quota
       = (put fs sp (shard_dir (V @ vectors_of bo astype (take k data))
                       (M @ metas_of bo (take k data)) (I @ ids_of (take k data))),
          drop k data, if length data < k then Some StopIteration else None)"
proof (induction k arbitrary: written data V M I)
  case 0
  then have "\<not> written < quota" by simp
  then show ?case
    by (subst write_loop.simps) (simp add: vectors_of_def metas_of_def ids_of_def)
next
  case (Suc k)
  then have lt: "written < quota" and k: "k = nat (quota - (written + 1))"
    by linarith+
  show ?case
  proof (cases data)
    case Nil
    then show ?thesis
      using lt by (subst write_loop.simps) (simp add: write_shard_files_Nil vectors_of_def metas_of_def ids_of_def)
  next
    case (Cons r data')
    have f: "fits bo astype r" and f': "\<forall>r \<in> set (take k data'). fits bo astype r"
      using Suc.prems(2) Cons by auto
    have step: "write_loop bo astype (put fs sp (shard_dir V M I)) (r # data')
           (sp @ [''ids'']) (sp @ [''metas'']) (sp @ [''vectors'']) written quota
        = write_loop bo astype
            (put fs sp (shard_dir (V @ vectors_of bo astype [r]) (M @ metas_of bo [r]) (I @ ids_of [r])))
            data' (sp @ [''ids'']) (sp @ [''metas'']) (sp @ [''vectors'']) (written + 1) quota"
      using lt by (subst write_loop.simps) (simp add: write_shard_files_Cons[OF assms f])
    have tk: "take (Suc k) (r # data') = [r] @ take k data'"
      by simp
    show ?thesis
      unfolding Cons step Suc.IH[OF k f'] tk vectors_of_append metas_of_append ids_of_append
      by simp
  qed
qed

lemma open_w_fresh:
  assumes "\<not> file_on_the_way fs sp" and "map_of es c = None"
  shows "open_w (put fs sp (Dir es)) (sp @ [c]) = Inr (put fs sp (Dir (es @ [(c, File [])])))"
proof -
  have 1: "lookup (put fs sp (Dir es)) (sp @ [c]) = None"
    using assms by (simp add: lookup_put)
  have 2: "lookup (put fs sp (Dir es)) sp = Some (Dir es)"
    using lookup_put[OF assms(1), of "Dir es" "[]"] by simp
  have 3: "AList.update c (File []) es = es @ [(c, File [])]"
    using assms(2) by (induction es) auto
  show ?thesis
    by (simp add: open_w_def 1 2 put_put 3)
qed

lemma write_shard_data_fits:
  assumes "lookup fs r = Some (Dir es)" and "map_of es (str shard_id) = None"
    and "k = nat quota" and "\<forall>r \<in> set (take k data). fits bo astype r"
  shows "write_shard_data bo astype fs data r shard_id quota
      = (put fs (r @ [str shard_id])
           (shard_dir (vectors_of bo astype (take k data)) (metas_of bo (take k data))
              (ids_of (take k data))),
         drop k data, if length data < k then Some StopIteration else None)"
proof -
  let ?sp = "r @ [str shard_id]"
  have nf: "\<not> file_on_the_way fs ?sp"
    by (rule dir_no_file_on_the_way[OF assms(1)])
  have "lookup fs ?sp = None"
    using lookup_child[OF assms(1), of "str shard_id" "[]"] assms(2) by simp
  then have mk: "os_makedirs fs ?sp = Inr (put fs ?sp (Dir []))"
    using nf by (simp add: os_makedirs_def)
  have o1: "open_w (put fs ?sp (Dir [])) (?sp @ [''vectors''])
      = Inr (put fs ?sp (Dir [(''vectors'', File [])]))"
    using open_w_fresh[OF nf, of "[]" "''vectors''"] by simp
  have o2: "open_w (put fs ?sp (Dir [(''vectors'', File [])])) (?sp @ [''metas''])
      = Inr (put fs ?sp (Dir [(''vectors'', File []), (''metas'', File [])]))"
    using open_w_fresh[OF nf, of "[(''vectors'', File [])]" "''metas''"] by simp
  have o3: "open_w (put fs ?sp (Dir [(''vectors'', File []), (''metas'', File [])])) (?sp @ [''ids''])
      = Inr (put fs ?sp (shard_dir [] [] []))"
    using open_w_fresh[OF nf, of "[(''vectors'', File []), (''metas'', File [])]" "''ids''"]
    by (simp add: shard_dir_def)
  have k: "k = nat (quota - 0)"
    using assms(3) by simp
  show ?thesis
    unfolding write_shard_data_def Let_def get_file_paths_def
    by (simp only: mk o1 o2 o3 sum.case prod.case write_loop_fits[OF nf k assms(4)]) simp
qed

section \<open>Writing all shards\<close>

lemma pulls_Cons: "pulls q (sid # rest) = nat (q sid) + pulls q rest"
  by (simp add: pulls_def)

lemma pulls_Nil: "pulls q [] = 0"
  by (simp add: pulls_def)

lemma shards_loop_written:
  fixes sps extra :: int and shard_range :: "int list"
  defines "q \<equiv> size_this_shard sps extra shard_range"
  assumes "lookup fs r = Some (Dir es)"
    and "distinct (map str rest)"
    and "\<forall>sid \<in> set rest. map_of es (str sid) = None"
    and "\<forall>x \<in> set (take (pulls q rest) data). fits bo astype x"
    and "pulls q rest \<le> length data"
  shows "\<exists>fs' es'.
      shards_loop bo astype fs data r sps extra shard_range rest
        = (fs', drop (pulls q rest) data, None)
    \<and> lookup fs' r = Some (Dir es')
    \<and> (\<forall>k < length rest. lookup fs' (r @ [str (rest ! k)])
          = Some (shard_of bo astype
              (take (nat (q (rest ! k))) (drop (pulls q (take k rest)) data))))
    \<and> (\<forall>c p. c \<notin> str ` set rest \<longrightarrow> lookup fs' (r @ c # p) = lookup fs (r @ c # p))"
  using assms(2-)
proof (induction rest arbitrary: fs es data)
  case Nil
  then show ?case by (simp add: pulls_Nil)
next
  case (Cons sid rest)
  let ?k = "nat (q sid)"
  let ?D = "shard_of bo astype (take ?k data)"
  let ?fs1 = "put fs (r @ [str sid]) ?D"
  have none: "map_of es (str sid) = None"
    using Cons.prems(3) by simp
  have fit0: "\<forall>x \<in> set (take ?k data). fits bo astype x"
    using Cons.prems(4) set_take_subset_set_take[of ?k "?k + pulls q rest" data]
    by (auto simp: pulls_Cons)
  have len0: "\<not> length data < ?k"
    using Cons.prems(5) by (simp add: pulls_Cons)
  have w: "write_shard_data bo astype fs data r sid (q sid) = (?fs1, drop ?k data, None)"
    using write_shard_data_fits[OF Cons.prems(1) none refl fit0] len0
    by (simp add: shard_of_def)
  have l1: "lookup ?fs1 r = Some (Dir (AList.update (str sid) ?D es))"
    by (rule lookup_put_parent[OF Cons.prems(1)])
  have d1: "distinct (map str rest)"
    using Cons.prems(2) by simp
  have n1: "\<forall>sid' \<in> set rest. map_of (AList.update (str sid) ?D es) (str sid') = None"
    using Cons.prems(2,3) by (auto simp: update_conv' image_iff)
  have f1: "\<forall>x \<in> set (take (pulls q rest) (drop ?k data)). fits bo astype x"
  proof
    fix x assume "x \<in> set (take (pulls q rest) (drop ?k data))"
    then have "x \<in> set (drop ?k (take (?k + pulls q rest) data))"
      by (simp add: drop_take add.commute)
    then have "x \<in> set (take (?k + pulls q rest) data)"
      by (rule in_set_dropD)
    then show "fits bo astype x"
      using Cons.prems(4) by (simp add: pulls_Cons)
  qed
  have p1: "pulls q rest \<le> length (drop ?k data)"
    using Cons.prems(5) by (simp add: pulls_Cons)
  from Cons.IH[OF l1 d1 n1 f1 p1] obtain fs' es' where
    run: "shards_loop bo astype ?fs1 (drop ?k data) r sps extra shard_range rest
        = (fs', drop (pulls q rest) (drop ?k data), None)" and
    root: "lookup fs' r = Some (Dir es')" and
    shards: "\<forall>k < length rest. lookup fs' (r @ [str (rest ! k)])
          = Some (shard_of bo astype
              (take (nat (q (rest ! k))) (drop (pulls q (take k rest)) (drop ?k data))))" and
    others: "\<forall>c p. c \<notin> str ` set rest \<longrightarrow> lookup fs' (r @ c # p) = lookup ?fs1 (r @ c # p)"
    by blast
  have nf: "\<not> file_on_the_way fs (r @ [str sid])"
    by (rule dir_no_file_on_the_way[OF Cons.prems(1)])
  have notin: "str sid \<notin> str ` set rest"
    using Cons.prems(2) by auto
  have first: "lookup fs' (r @ [str sid]) = Some ?D"
    using others notin lookup_put[OF nf, of ?D "[]"] by simp
  have a: "shards_loop bo astype fs data r sps extra shard_range (sid # rest)
      = (fs', drop (pulls q (sid # rest)) data, None)"
    using w run by (simp add: q_def[symmetric] pulls_Cons add.commute)
  have b: "\<forall>k < length (sid # rest). lookup fs' (r @ [str ((sid # rest) ! k)])
          = Some (shard_of bo astype
              (take (nat (q ((sid # rest) ! k))) (drop (pulls q (take k (sid # rest))) data)))"
  proof (intro allI impI)
    fix k assume "k < length (sid # rest)"
    then show "lookup fs' (r @ [str ((sid # rest) ! k)])
          = Some (shard_of bo astype
              (take (nat (q ((sid # rest) ! k))) (drop (pulls q (take k (sid # rest))) data)))"
      using first shards by (cases k) (auto simp: pulls_Nil pulls_Cons add.commute)
  qed
  have c: "\<forall>c p. c \<notin> str ` set (sid # rest) \<longrightarrow> lookup fs' (r @ c # p) = lookup fs (r @ c # p)"
    using others by (auto simp: lookup_put_other)
  show ?case
    using a b c root by blast
qed

section \<open>Reading\<close>

lemma yield_simp: "yield x (xs, e) = (x # xs, e)"
  by (simp add: yield_def)

lemma metas_loop_frame:
  assumes "m \<noteq> []" and "length m < 256 ^ BYTE_PADDING"
  shows "metas_loop bo (frame bo m @ rest) = yield (Some m) (metas_loop bo rest)"
proof -
  obtain s where s: "to_bytes (length m) BYTE_PADDING bo = Inr s" "frame bo m = s @ m"
    using frame_fits[OF assms(2)] by blast
  have l: "length s = BYTE_PADDING" "from_bytes s bo = length m"
    using to_bytes_InrD[OF s(1)] by auto
  show ?thesis
    using assms(1) by (subst metas_loop.simps) (simp add: s(2) l EMPTY_BYTES_def)
qed

lemma metas_loop_frame_empty: "metas_loop bo (frame bo [] @ rest) = ([], None)"
proof -
  obtain s where s: "to_bytes (length ([]::byte list)) BYTE_PADDING bo = Inr s" "frame bo [] = s @ []"
    using frame_fits[of "[]" bo] by auto
  have l: "length s = BYTE_PADDING" "from_bytes s bo = 0"
    using to_bytes_InrD[OF s(1)] by auto
  show ?thesis
    by (subst metas_loop.simps) (simp add: s(2) l)
qed

lemma metas_loop_Nil: "metas_loop bo [] = ([], None)"
  by (subst metas_loop.simps) (cases bo; simp add: from_bytes_def)

lemma vecs_loop_Nil: "vecs_loop bo [] = ([], None)"
  by (subst vecs_loop.simps) (cases bo; simp add: from_bytes_def)

lemma vecs_loop_frame_empty: "vecs_loop bo (frame bo [] @ rest) = ([], None)"
proof -
  obtain s where s: "to_bytes (length ([]::byte list)) BYTE_PADDING bo = Inr s" "frame bo [] = s @ []"
    using frame_fits[of "[]" bo] by auto
  have l: "length s = BYTE_PADDING" "from_bytes s bo = 0"
    using to_bytes_InrD[OF s(1)] by auto
  show ?thesis
    by (subst vecs_loop.simps) (simp add: s(2) l)
qed

lemma vecs_loop_frame:
  assumes "b \<noteq> []" and "length b < 256 ^ BYTE_PADDING"
  shows "vecs_loop bo (frame bo b @ rest) =
    (case frombuffer bo b of Inl e \<Rightarrow> ([], Some e) | Inr vec \<Rightarrow> yield (Some vec) (vecs_loop bo rest))"
proof -
  obtain s where s: "to_bytes (length b) BYTE_PADDING bo = Inr s" "frame bo b = s @ b"
    using frame_fits[OF assms(2)] by blast
  have l: "length s = BYTE_PADDING" "from_bytes s bo = length b"
    using to_bytes_InrD[OF s(1)] by auto
  show ?thesis
    using assms(1) by (subst vecs_loop.simps) (simp add: s(2) l EMPTY_BYTES_def)
qed

lemma readlines_line:
  "\<forall>c \<in> set s. c \<noteq> LF \<and> c \<noteq> CR \<Longrightarrow>
   readlines cur (s @ LF # rest) = (cur @ s @ [LF]) # readlines [] rest"
proof (induction s arbitrary: cur)
  case Nil
  then show ?case by (cases rest) auto
next
  case (Cons c s)
  then have "readlines (cur @ [c]) (s @ LF # rest) = (cur @ [c] @ s @ [LF]) # readlines [] rest"
    by simp
  moreover have "readlines cur (c # s @ LF # rest) = readlines (cur @ [c]) (s @ LF # rest)"
    using Cons.prems by (cases "s @ LF # rest") auto
  ultimately show ?case by simp
qed

lemma isspace_LF: "isspace LF"
  by (simp add: isspace_def LF_def)

lemma strip_line: "valid_id s \<Longrightarrow> strip (s @ [LF]) = s"
proof (cases s)
  case Nil
  then show ?thesis by (simp add: strip_def isspace_LF)
next
  case (Cons c cs)
  assume "valid_id s"
  then have h: "\<not> isspace (hd s)" and l: "\<not> isspace (last s)"
    using Cons by (auto simp: valid_id_def)
  have 1: "dropWhile isspace (s @ [LF]) = s @ [LF]"
    using h Cons by simp
  have "hd (rev s) = last s"
    using Cons by (simp add: hd_rev)
  then have 2: "dropWhile isspace (rev s) = rev s"
    using l Cons by (cases "rev s") simp_all
  show ?thesis
    by (simp add: strip_def 1 2 isspace_LF)
qed

section \<open>Shard names and pulls\<close>

lemma digit_value: "d < 10 \<Longrightarrow> (of_char (digit_char d) :: nat) - 48 = d"
  by (simp add: digit_char_def)

lemma str_nat_value: "foldl (\<lambda>acc c. 10 * acc + (of_char c - 48)) (0::nat) (str_nat n) = n"
proof (induction n rule: str_nat.induct)
  case (1 n)
  show ?case
  proof (cases "n < 10")
    case True
    then show ?thesis
      by (subst str_nat.simps) (simp add: digit_value)
  next
    case False
    have "n mod 10 < 10" by simp
    then have "(of_char (digit_char (n mod 10)) :: nat) - 48 = n mod 10"
      by (rule digit_value)
    then show ?thesis
      using False 1 by (subst str_nat.simps) simp
  qed
qed

lemma str_nat_inj:
  assumes "str_nat m = str_nat n"
  shows "m = n"
proof -
  have "foldl (\<lambda>acc c. 10 * acc + (of_char c - 48)) (0::nat) (str_nat m)
      = foldl (\<lambda>acc c. 10 * acc + (of_char c - 48)) (0::nat) (str_nat n)"
    by (simp only: assms)
  then show ?thesis
    by (simp only: str_nat_value)
qed

lemma str_inj_nonneg: "0 \<le> i \<Longrightarrow> 0 \<le> j \<Longrightarrow> str i = str j \<Longrightarrow> i = j"
  using str_nat_inj[of "nat i" "nat j"] by (simp add: str_def)

lemma distinct_str_range: "distinct (map str (range_list shards))"
proof -
  have "inj_on str (set (range_list shards))"
  proof (rule inj_onI)
    fix x y assume "x \<in> set (range_list shards)" "y \<in> set (range_list shards)" "str x = str y"
    moreover from this have "0 \<le> x" "0 \<le> y"
      by (auto simp: range_list_def)
    ultimately show "x = y"
      by (simp add: str_inj_nonneg)
  qed
  moreover have "distinct (range_list shards)"
    by (simp add: range_list_def distinct_map inj_on_def)
  ultimately show ?thesis
    by (simp add: distinct_map)
qed

lemma quotas_nonneg:
  "0 \<le> size' \<Longrightarrow> 1 \<le> shards \<Longrightarrow> q \<in> set (quotas size' shards) \<Longrightarrow> 0 \<le> q"
  by (auto simp: quotas_eq pos_imp_zdiv_nonneg_iff)

lemma sum_list_nat: "\<forall>x \<in> set xs. 0 \<le> x \<Longrightarrow> sum_list (map nat xs) = nat (sum_list xs)"
proof (induction xs)
  case Nil
  then show ?case by simp
next
  case (Cons x xs)
  then have "0 \<le> sum_list xs" by (simp add: sum_list_nonneg)
  then show ?case using Cons by (simp add: nat_add_distrib)
qed

lemma pulls_take_range:
  assumes "0 \<le> size'" and "1 \<le> shards"
  shows "pulls (size_this_shard (size' div shards) (size' mod shards) (range_list shards))
           (take k (range_list shards))
       = nat (sum_list (take k (quotas size' shards)))"
proof -
  have "\<forall>x \<in> set (take k (quotas size' shards)). 0 \<le> x"
    using quotas_nonneg[OF assms] by (auto dest: in_set_takeD)
  then have "nat (sum_list (take k (quotas size' shards)))
      = sum_list (map nat (take k (quotas size' shards)))"
    by (rule sum_list_nat[symmetric])
  also have "\<dots> = pulls (size_this_shard (size' div shards) (size' mod shards) (range_list shards))
           (take k (range_list shards))"
    by (simp add: pulls_def quotas_def take_map comp_def)
  finally show ?thesis by simp
qed

lemma pulls_range:
  assumes "0 \<le> size'" and "1 \<le> shards"
  shows "pulls (size_this_shard (size' div shards) (size' mod shards) (range_list shards))
           (range_list shards) = nat size'"
proof -
  have l: "length (range_list shards) = length (quotas size' shards)"
    by (simp add: quotas_def)
  have "(int (nat shards - 1)) * (size' div shards) + (size' div shards + size' mod shards) = size'"
  proof -
    have "int (nat shards - 1) = shards - 1" using assms by simp
    then show ?thesis by (simp add: algebra_simps)
  qed
  then have s: "sum_list (quotas size' shards) = size'"
    by (simp add: quotas_eq[OF assms(2)] sum_list_replicate)
  have "pulls (size_this_shard (size' div shards) (size' mod shards) (range_list shards))
           (take (length (range_list shards)) (range_list shards))
       = nat (sum_list (take (length (range_list shards)) (quotas size' shards)))"
    by (rule pulls_take_range[OF assms])
  then show ?thesis
    unfolding l s take_all[OF order_refl] unfolding l[symmetric] take_all[OF order_refl] .
qed

section \<open>The dump as a whole\<close>

lemma put_Nil_lookup: "\<not> file_on_the_way fs p \<Longrightarrow> lookup (put fs p a) p = Some a"
  using lookup_put[of fs p a "[]"] by simp

lemma handle_dump_written:
  assumes "empty_target fs path" and "1 \<le> shards" and "0 \<le> size'"
    and "nat size' \<le> length data"
    and "\<forall>x \<in> set (take (nat size') data). fits bo astype x"
  shows "\<exists>fs'. handle_dump bo astype fs data path shards size' = (fs', drop (nat size') data, None)
    \<and> (\<forall>i < nat shards. lookup fs' (path @ [str (int i)])
          = Some (shard_of bo astype
              (take (nat (quotas size' shards ! i))
                 (drop (nat (sum_list (take i (quotas size' shards)))) data))))"
proof -
  let ?q = "size_this_shard (size' div shards) (size' mod shards) (range_list shards)"
  let ?fs1 = "if lookup fs path = None then put fs path (Dir []) else fs"
  have pre: "(if \<not> os_path_exists fs path then os_makedirs fs path else Inr fs) = Inr ?fs1"
    using assms(1) by (auto simp: empty_target_def os_path_exists_def os_makedirs_def)
  have root: "lookup ?fs1 path = Some (Dir [])"
    using assms(1) by (auto simp: empty_target_def put_Nil_lookup)
  then have ls: "os_listdir ?fs1 path = Inr []"
    by (simp add: os_listdir_def)
  have p: "pulls ?q (range_list shards) = nat size'"
    by (rule pulls_range[OF assms(3,2)])
  from shards_loop_written[OF root distinct_str_range, of shards "size' div shards" "size' mod shards"
      "range_list shards" data bo astype] assms(4,5) p
  obtain fs' where
    run: "shards_loop bo astype ?fs1 data path (size' div shards) (size' mod shards)
            (range_list shards) (range_list shards) = (fs', drop (nat size') data, None)" and
    shards: "\<forall>k < length (range_list shards). lookup fs' (path @ [str (range_list shards ! k)])
          = Some (shard_of bo astype
              (take (nat (?q (range_list shards ! k))) (drop (pulls ?q (take k (range_list shards))) data)))"
    by auto
  have hd: "handle_dump bo astype fs data path shards size' = (fs', drop (nat size') data, None)"
    using assms(2) run unfolding handle_dump_def pre
    by (simp only: sum.case ls Let_def) simp
  have "\<forall>i < nat shards. lookup fs' (path @ [str (int i)])
          = Some (shard_of bo astype
              (take (nat (quotas size' shards ! i))
                 (drop (nat (sum_list (take i (quotas size' shards)))) data)))"
  proof (intro allI impI)
    fix i assume i: "i < nat shards"
    then have 1: "range_list shards ! i = int i" and 2: "i < length (range_list shards)"
      by (simp_all add: range_list_def)
    have 3: "quotas size' shards ! i = ?q (int i)"
      using i by (simp add: quotas_def range_list_def)
    show "lookup fs' (path @ [str (int i)])
          = Some (shard_of bo astype
              (take (nat (quotas size' shards ! i))
                 (drop (nat (sum_list (take i (quotas size' shards)))) data)))"
      using shards[rule_format, OF 2] by (simp add: 1 3 pulls_take_range[OF assms(3,2)])
  qed
  with hd show ?thesis by blast
qed

section \<open>Reading a shard back\<close>

lemma vec_payload_array:
  "vec_payload bo astype (Some (NdArray a)) = tobytes bo (float64_of astype a)"
  by (cases a) (simp_all add: vec_payload_def float64_of_def)

lemma tobytes_eq_Nil: "tobytes bo ws = [] \<longleftrightarrow> ws = []"
  using tobytes_length[of bo ws] by (metis length_0_conv mult_is_0 zero_neq_numeral)

lemma metas_loop_storable:
  "\<forall>r \<in> set recs. storable bo astype r \<Longrightarrow>
   metas_loop bo (metas_of bo recs) = (map (\<lambda>(id', vec, meta). meta) recs, None)"
proof (induction recs)
  case Nil
  then show ?case by (simp add: metas_of_def metas_loop_Nil)
next
  case (Cons r recs)
  obtain id' vec meta where r: "r = (id', vec, meta)"
    by (cases r) auto
  from Cons.prems r obtain m where m: "meta = Some m" "m \<noteq> []" "length m < 256 ^ BYTE_PADDING"
    by (auto simp: storable_def fits_def meta_payload_def split: option.splits)
  have "metas_of bo (r # recs) = frame bo m @ metas_of bo recs"
    by (simp add: metas_of_def r m meta_payload_def)
  then show ?case
    using Cons metas_loop_frame[OF m(2,3)] by (simp add: r m yield_simp)
qed

lemma vecs_loop_storable:
  "\<forall>r \<in> set recs. storable bo astype r \<Longrightarrow>
   vecs_loop bo (vectors_of bo astype recs)
     = (map (\<lambda>(id', vec, meta). read_vec astype vec) recs, None)"
proof (induction recs)
  case Nil
  then show ?case by (simp add: vectors_of_def vecs_loop_Nil)
next
  case (Cons r recs)
  obtain id' vec meta where r: "r = (id', vec, meta)"
    by (cases r) auto
  from Cons.prems r obtain a where a: "vec = Some (NdArray a)" "float64_of astype a \<noteq> []"
      "length (tobytes bo (float64_of astype a)) < 256 ^ BYTE_PADDING"
    by (auto simp: storable_def fits_def vec_payload_array split: option.splits vec.splits)
  have ne: "tobytes bo (float64_of astype a) \<noteq> []"
    using a(2) by (simp add: tobytes_eq_Nil)
  have "vectors_of bo astype (r # recs)
      = frame bo (tobytes bo (float64_of astype a)) @ vectors_of bo astype recs"
    by (simp add: vectors_of_def r a vec_payload_array)
  then show ?case
    using Cons vecs_loop_frame[OF ne a(3)]
    by (simp add: r a yield_simp frombuffer_tobytes read_vec_def)
qed

lemma ids_of_encode:
  "\<forall>r \<in> set recs. fits bo astype r \<Longrightarrow>
   utf8_encode (concat (map (\<lambda>r. fst r @ [LF]) recs)) = Inr (ids_of recs)"
proof (induction recs)
  case Nil
  then show ?case by (simp add: ids_of_def)
next
  case (Cons r recs)
  obtain id' vec meta where r: "r = (id', vec, meta)"
    by (cases r) auto
  from Cons.prems r have "encodable id'"
    by (simp add: fits_def)
  then have a: "utf8_encode (id' @ [LF]) = Inr (id_line id')"
    by (rule id_line_encodable)
  have b: "utf8_encode (concat (map (\<lambda>r. fst r @ [LF]) recs))
      = Inr (ids_of recs)"
    by (rule Cons.IH) (use Cons.prems in simp)
  have "utf8_encode ((id' @ [LF]) @ concat (map (\<lambda>r. fst r @ [LF]) recs))
      = Inr (id_line id' @ ids_of recs)"
    by (subst utf8_encode_append) (simp only: a b sum.case)
  then show ?case
    by (simp add: r ids_of_def)
qed

lemma ids_of_decode:
  assumes "\<forall>r \<in> set recs. fits bo astype r"
  shows "utf8_decode (ids_of recs) = Inr (concat (map (\<lambda>r. fst r @ [LF]) recs))"
  using utf8_decode_encode[OF ids_of_encode[OF assms], of "[]"] by simp

lemma ids_lines:
  "\<forall>r \<in> set recs. valid_id (fst r) \<Longrightarrow>
   map strip (readlines [] (concat (map (\<lambda>r. fst r @ [LF]) recs))) = map fst recs"
proof (induction recs)
  case Nil
  then show ?case by simp
next
  case (Cons r recs)
  obtain id' rest where r: "r = (id', rest)"
    by (cases r) auto
  from Cons.prems r have v: "valid_id id'"
    by simp
  then have nl: "\<forall>c \<in> set id'. c \<noteq> LF \<and> c \<noteq> CR"
    by (simp add: valid_id_def)
  show ?case
    using Cons readlines_line[OF nl, of "[]"] strip_line[OF v] by (simp add: r)
qed

lemma ids_storable:
  assumes "\<forall>r \<in> set recs. storable bo astype r"
  shows "(case utf8_decode (ids_of recs) of
            Inl e \<Rightarrow> ([], Some e)
          | Inr text \<Rightarrow> (map strip (readlines [] text), None)) = (map fst recs, None)"
proof -
  have f: "\<forall>r \<in> set recs. fits bo astype r"
    using assms by (auto simp: storable_def)
  have v: "\<forall>r \<in> set recs. valid_id (fst r)"
    using assms by (auto simp: storable_def)
  show ?thesis
    by (simp add: ids_of_decode[OF f] ids_lines[OF v])
qed

lemma split_sep_plain: "CHR ''/'' \<notin> set s \<Longrightarrow> split_sep cur s = [cur @ s]"
  by (induction s arbitrary: cur) auto

lemma os_path_join_plain: "plain_name s \<Longrightarrow> os_path_join path s = (path, [s])"
  by (cases s) (auto simp: plain_name_def os_path_join_def split_sep_plain)

lemma file_on_the_way_append:
  "file_on_the_way n (p @ q)
     = (case lookup n p of None \<Rightarrow> file_on_the_way n p | Some m \<Rightarrow> file_on_the_way m q)"
proof (induction p arbitrary: n)
  case Nil
  then show ?case by simp
next
  case (Cons c cs)
  then show ?case
    by (cases n) (auto split: option.splits)
qed

lemma resolve_plain:
  "plain_name c \<Longrightarrow>
   resolve fs cur (c # cs)
     = (case lookup fs cur of
          None \<Rightarrow> Inl (missing fs cur)
        | Some (File b) \<Rightarrow> Inl NotADirectoryError
        | Some (Dir es) \<Rightarrow> resolve fs (cur @ [c]) cs)"
  by (auto simp: plain_name_def split: option.splits node.splits)

lemma open_r_joined_resolve:
  assumes "plain_name pea_id" and "plain_name name"
  shows "open_r_joined fs (join_name (os_path_join path pea_id) name)
     = (case resolve fs path [pea_id, name] of Inl e \<Rightarrow> Inl e | Inr q \<Rightarrow> open_r fs q)"
  using assms
  by (simp add: open_r_joined_def join_name_def os_path_join_plain[OF assms(1)] plain_name_def
      del: resolve.simps(2))

lemma resolve_open_plain:
  assumes "plain_name pea_id" and "plain_name name"
  shows "(case resolve fs path [pea_id, name] of Inl e \<Rightarrow> Inl e | Inr q \<Rightarrow> open_r fs q)
     = open_r fs (path @ [pea_id, name])"
proof (cases "lookup fs path")
  case None
  then show ?thesis
    using file_on_the_way_append[of fs path "[pea_id, name]"]
    by (simp add: resolve_plain[OF assms(1)] open_r_def lookup_append missing_def
        del: resolve.simps(2))
next
  case (Some m)
  show ?thesis
  proof (cases m)
    case (File b)
    then show ?thesis
      using Some file_on_the_way_append[of fs path "[pea_id, name]"]
      by (simp add: resolve_plain[OF assms(1)] open_r_def lookup_append missing_def
          del: resolve.simps(2))
  next
    case (Dir es)
    have l: "lookup fs (path @ [pea_id]) = map_of es pea_id"
      using Some Dir by (simp add: lookup_append split: option.splits)
    have f1: "file_on_the_way fs (path @ [pea_id]) = False"
      using Some Dir file_on_the_way_append[of fs path "[pea_id]"]
      by (simp split: option.splits)
    have f2: "file_on_the_way fs (path @ [pea_id, name])
        = (case map_of es pea_id of None \<Rightarrow> False | Some ch \<Rightarrow> file_on_the_way ch [name])"
      using Some Dir file_on_the_way_append[of fs path "[pea_id, name]"]
      by simp
    have l2: "lookup fs (path @ [pea_id, name])
        = (case map_of es pea_id of None \<Rightarrow> None | Some ch \<Rightarrow> lookup ch [name])"
      using Some Dir lookup_append[of fs path "[pea_id, name]"] by simp
    show ?thesis
    proof (cases "map_of es pea_id")
      case None
      then show ?thesis
        using Some Dir l f1 f2 l2
        by (simp add: resolve_plain[OF assms(1)] resolve_plain[OF assms(2)] open_r_def missing_def
            del: resolve.simps(2))
    next
      case (Some ch)
      then show ?thesis
        using \<open>lookup fs path = Some m\<close> Dir l f1 f2 l2
        by (cases ch)
          (simp_all add: resolve_plain[OF assms(1)] resolve_plain[OF assms(2)] open_r_def missing_def
            del: resolve.simps(2))
    qed
  qed
qed

lemma open_r_joined_plain:
  assumes "plain_name pea_id" and "plain_name name"
  shows "open_r_joined fs (join_name (os_path_join path pea_id) name)
     = open_r fs (path @ [pea_id, name])"
  by (simp only: open_r_joined_resolve[OF assms] resolve_open_plain[OF assms])

lemma plain_names: "plain_name ''ids''" "plain_name ''vectors''" "plain_name ''metas''"
  by (simp_all add: plain_name_def)

lemma str_nat_digit:
  "c \<in> set (str_nat n) \<Longrightarrow> 48 \<le> (of_char c :: nat) \<and> (of_char c :: nat) < 58"
proof (induction n rule: str_nat.induct)
  case (1 n)
  show ?case
  proof (cases "n < 10")
    case True
    then show ?thesis
      using 1(2) by (subst (asm) str_nat.simps) (auto simp: digit_char_def)
  next
    case False
    have "n mod 10 < 10" by simp
    then have "48 \<le> (of_char (digit_char (n mod 10)) :: nat)
        \<and> (of_char (digit_char (n mod 10)) :: nat) < 58"
      by (simp add: digit_char_def)
    then show ?thesis
      using False 1 by (subst (asm) (2) str_nat.simps) auto
  qed
qed

lemma str_nat_not_Nil: "str_nat n \<noteq> []"
  by (subst str_nat.simps) simp

lemma plain_name_str: "plain_name (str i)"
proof -
  have d: "c \<noteq> CHR ''/'' \<and> c \<noteq> CHR ''.'' \<and> c \<noteq> CHR 0x00"
    if "c \<in> set (str_nat n)" for c n
    using str_nat_digit[OF that] by auto
  have "str_nat n \<noteq> ''.''" "str_nat n \<noteq> ''..''" for n
    using d[of "CHR ''.''" n] by auto
  then show ?thesis
    using d str_nat_not_Nil by (auto simp: plain_name_def str_def)
qed

lemma open_r_shard:
  assumes "lookup fs sp = Some (shard_dir V M I)"
  shows "open_r fs (sp @ [''vectors'']) = Inr V"
    and "open_r fs (sp @ [''metas'']) = Inr M"
    and "open_r fs (sp @ [''ids'']) = Inr I"
  using assms by (simp_all add: open_r_def lookup_append shard_dir_def)

lemma import_shard_storable:
  assumes "lookup fs (path @ [pea_id]) = Some (shard_of bo astype recs)"
    and "\<forall>r \<in> set recs. storable bo astype r"
    and "plain_name pea_id"
  shows "import_shard bo fs path pea_id
     = ((map fst recs, None),
        (map (\<lambda>(id', vec, meta). meta) recs, None),
        (map (\<lambda>(id', vec, meta). read_vec astype vec) recs, None))"
  using open_r_shard[OF assms(1)[unfolded shard_of_def]]
  by (simp add: import_shard_def import_metas_and_vectors_def ids_gen_def metas_gen_def
      vecs_gen_def open_r_joined_plain[OF assms(3)] plain_names
      ids_storable[OF assms(2)] metas_loop_storable[OF assms(2)]
      vecs_loop_storable[OF assms(2)])

lemma partition_concat:
  "concat (map (\<lambda>i. take (ks ! i) (drop (sum_list (take i ks)) data)) [0..<length ks])
     = take (sum_list ks) data"
proof (induction ks rule: rev_induct)
  case Nil
  then show ?case by simp
next
  case (snoc k ks)
  have e: "map (\<lambda>i. take ((ks @ [k]) ! i) (drop (sum_list (take i (ks @ [k]))) data)) [0..<length ks]
      = map (\<lambda>i. take (ks ! i) (drop (sum_list (take i ks)) data)) [0..<length ks]"
    by (rule map_cong) (auto simp: nth_append)
  have "concat (map (\<lambda>i. take ((ks @ [k]) ! i) (drop (sum_list (take i (ks @ [k]))) data))
          [0..<length (ks @ [k])])
      = concat (map (\<lambda>i. take ((ks @ [k]) ! i) (drop (sum_list (take i (ks @ [k]))) data))
          [0..<length ks]) @ take k (drop (sum_list ks) data)"
    by simp
  also have "\<dots> = take (sum_list ks) data @ take k (drop (sum_list ks) data)"
    unfolding e snoc ..
  also have "\<dots> = take (sum_list (ks @ [k])) data"
    by (simp add: take_add)
  finally show ?case .
qed

section \<open>Round trip\<close>

lemma quotas_length: "length (quotas size' shards) = nat shards"
  by (simp add: quotas_def range_list_def)

lemma quotas_sum: 
  assumes "1 \<le> shards"
  shows "sum_list (quotas size' shards) = size'"
proof -
  have "int (nat shards - 1) = shards - 1" using assms by simp
  then have "(int (nat shards - 1)) * (size' div shards) + (size' div shards + size' mod shards) = size'"
    by (simp add: algebra_simps)
  then show ?thesis
    by (simp add: quotas_eq[OF assms] sum_list_replicate)
qed

lemma slices_concat:
  assumes "0 \<le> size'" and "1 \<le> shards"
  shows "concat (map (shard_slice size' shards data) [0..<nat shards]) = take (nat size') data"
proof -
  let ?ks = "map nat (quotas size' shards)"
  have nn: "\<forall>x \<in> set (take i (quotas size' shards)). 0 \<le> x" for i
    using quotas_nonneg[OF assms] by (auto dest: in_set_takeD)
  have "map (shard_slice size' shards data) [0..<nat shards]
      = map (\<lambda>i. take (?ks ! i) (drop (sum_list (take i ?ks)) data)) [0..<length ?ks]"
  proof (rule map_cong)
    show "[0..<nat shards] = [0..<length ?ks]"
      by (simp add: quotas_length)
  next
    fix i assume "i \<in> set [0..<length ?ks]"
    then have i: "i < length (quotas size' shards)" by simp
    have "sum_list (take i ?ks) = nat (sum_list (take i (quotas size' shards)))"
      using sum_list_nat[OF nn, of i] by (simp add: take_map)
    then show "shard_slice size' shards data i = take (?ks ! i) (drop (sum_list (take i ?ks)) data)"
      using i by (simp add: shard_slice_def)
  qed
  moreover have "sum_list ?ks = nat size'"
    using sum_list_nat[OF nn, of "length (quotas size' shards)"] quotas_sum[OF assms(2), of size']
    by simp
  ultimately show ?thesis
    using partition_concat[of ?ks data] by simp
qed

lemma storable_fits: "storable bo astype r \<Longrightarrow> fits bo astype r"
  by (cases r) (simp add: storable_def)

lemma slice_subset: "set (shard_slice size' shards data i) \<subseteq> set data"
  by (auto simp: shard_slice_def dest!: in_set_takeD in_set_dropD)

section \<open>Evaluation on concrete inputs\<close>

lemma le_bytes_numeral:
  "le_bytes n (numeral k) = of_nat (n mod 256) # le_bytes (n div 256) (pred_numeral k)"
proof -
  have "le_bytes n (Suc (pred_numeral k)) = of_nat (n mod 256) # le_bytes (n div 256) (pred_numeral k)"
    by simp
  then show ?thesis
    by (simp only: numeral_eq_Suc[symmetric])
qed

lemma char_of_eq_iff: "char_of (n::nat) = c \<longleftrightarrow> n mod 256 = of_char c"
proof
  assume "char_of n = c"
  then have "of_char (char_of n) = (of_char c :: nat)" by simp
  then show "n mod 256 = of_char c" by simp
next
  assume "n mod 256 = of_char c"
  then have "of_char (char_of n) = (of_char c :: nat)" by simp
  then show "char_of n = c" by (rule of_char_eqI)
qed

section \<open>How many records are pulled\<close>

lemma pulled_refl: "pulled data data k"
  by (auto simp: pulled_def intro: exI[of _ 0])

lemma pulled_trans:
  assumes "pulled a b k" and "pulled b c l"
  shows "pulled a c (k + l)"
proof -
  from assms obtain m n where "m \<le> k" "b = drop m a" "n \<le> l" "c = drop n b"
    by (auto simp: pulled_def)
  then have "m + n \<le> k + l" "c = drop (m + n) a"
    by (simp_all add: add.commute)
  then show ?thesis
    unfolding pulled_def by blast
qed

lemma pulled_mono:
  assumes "pulled a b k" and "k \<le> l"
  shows "pulled a b l"
proof -
  from assms(1) obtain m where "m \<le> k" "b = drop m a"
    unfolding pulled_def by blast
  with assms(2) have "m \<le> l" "b = drop m a"
    by simp_all
  then show ?thesis
    unfolding pulled_def by blast
qed

lemma write_shard_files_pulled:
  "write_shard_files bo astype fs data i m v = (fs', data', e) \<Longrightarrow> pulled data data' 1"
  by (auto simp: write_shard_files_def pulled_def Let_def split: list.splits sum.splits
      intro: exI[of _ 0] exI[of _ 1])

lemma write_loop_pulled:
  "write_loop bo astype fs data i m v written quota = (fs', data', e) \<Longrightarrow>
   pulled data data' (nat (quota - written))"
proof (induction bo astype fs data i m v written quota rule: write_loop.induct)
  case (1 bo astype fs data i m v written quota)
  show ?case
  proof (cases "written < quota")
    case False
    then show ?thesis
      using "1.prems" by (subst (asm) write_loop.simps) (simp add: pulled_refl)
  next
    case True
    obtain fs1 data1 e1 where w: "write_shard_files bo astype fs data i m v = (fs1, data1, e1)"
      by (cases "write_shard_files bo astype fs data i m v") auto
    have p1: "pulled data data1 1"
      by (rule write_shard_files_pulled[OF w])
    show ?thesis
    proof (cases e1)
      case (Some err)
      then have "data' = data1"
        using "1.prems" True w by (subst (asm) write_loop.simps) simp
      then show ?thesis
        using p1 True by (auto intro: pulled_mono)
    next
      case None
      then have "write_loop bo astype fs1 data1 i m v (written + 1) quota = (fs', data', e)"
        using "1.prems" True w by (subst (asm) write_loop.simps) simp
      then have "pulled data1 data' (nat (quota - (written + 1)))"
        using "1.IH"[OF True w[symmetric] refl] None by simp
      then have "pulled data data' (1 + nat (quota - (written + 1)))"
        by (rule pulled_trans[OF p1])
      then show ?thesis
        using True by (auto intro: pulled_mono)
    qed
  qed
qed

lemma write_shard_data_pulled:
  "write_shard_data bo astype fs data path sid quota = (fs', data', e) \<Longrightarrow>
   pulled data data' (nat quota)"
  using write_loop_pulled[of bo astype _ data _ _ _ 0 quota fs' data' e]
  by (auto simp: write_shard_data_def Let_def get_file_paths_def pulled_refl split: sum.splits)

lemma shards_loop_pulled:
  "shards_loop bo astype fs data path sps extra shard_range rest = (fs', data', e) \<Longrightarrow>
   pulled data data' (pulls (size_this_shard sps extra shard_range) rest)"
proof (induction rest arbitrary: fs data)
  case Nil
  then show ?case by (simp add: pulled_refl)
next
  case (Cons sid rest)
  let ?q = "size_this_shard sps extra shard_range"
  obtain fs1 data1 e1 where w:
    "write_shard_data bo astype fs data path sid (?q sid) = (fs1, data1, e1)"
    by (cases "write_shard_data bo astype fs data path sid (?q sid)") auto
  have p1: "pulled data data1 (nat (?q sid))"
    by (rule write_shard_data_pulled[OF w])
  show ?case
  proof (cases e1)
    case (Some err)
    then have "data' = data1"
      using Cons.prems w by simp
    then show ?thesis
      using p1 by (auto simp: pulls_Cons intro: pulled_mono)
  next
    case None
    then have "shards_loop bo astype fs1 data1 path sps extra shard_range rest = (fs', data', e)"
      using Cons.prems w by simp
    then have "pulled data1 data' (pulls ?q rest)"
      by (rule Cons.IH)
    then show ?thesis
      using pulled_trans[OF p1] by (simp add: pulls_Cons)
  qed
qed

lemma handle_dump_pulled:
  assumes "0 \<le> size'"
    and "handle_dump bo astype fs data path shards size' = (fs', data', e)"
  shows "pulled data data' (nat size')"
proof (cases "1 \<le> shards")
  case True
  have p: "pulls (size_this_shard (size' div shards) (size' mod shards) (range_list shards))
      (range_list shards) = nat size'"
    by (rule pulls_range[OF assms(1) True])
  show ?thesis
    using assms(2) True shards_loop_pulled[of bo astype _ data path "size' div shards"
        "size' mod shards" "range_list shards" "range_list shards" fs' data' e]
    unfolding p
    by (auto simp: handle_dump_def Let_def pulled_refl split: sum.splits if_splits)
next
  case False
  then have "range_list shards = []"
    by (simp add: range_list_def)
  then show ?thesis
    using assms(2)
    by (auto simp: handle_dump_def Let_def pulled_refl split: sum.splits if_splits)
qed

section \<open>An exhausted producer\<close>

lemma shards_loop_exhausted:
  fixes sps extra :: int and shard_range :: "int list"
  defines "q \<equiv> size_this_shard sps extra shard_range"
  assumes "lookup fs r = Some (Dir es)"
    and "distinct (map str rest)"
    and "\<forall>sid \<in> set rest. map_of es (str sid) = None"
    and "\<forall>x \<in> set data. fits bo astype x"
    and "length data < pulls q rest"
  shows "\<exists>fs'. shards_loop bo astype fs data r sps extra shard_range rest
        = (fs', [], Some StopIteration)"
  using assms(2-)
proof (induction rest arbitrary: fs es data)
  case Nil
  then show ?case by (simp add: pulls_Nil)
next
  case (Cons sid rest)
  let ?k = "nat (q sid)"
  let ?D = "shard_of bo astype (take ?k data)"
  let ?fs1 = "put fs (r @ [str sid]) ?D"
  have none: "map_of es (str sid) = None"
    using Cons.prems(3) by simp
  have fit0: "\<forall>x \<in> set (take ?k data). fits bo astype x"
    using Cons.prems(4) by (auto dest: in_set_takeD)
  have w: "write_shard_data bo astype fs data r sid (q sid)
      = (?fs1, drop ?k data, if length data < ?k then Some StopIteration else None)"
    using write_shard_data_fits[OF Cons.prems(1) none refl fit0]
    by (simp add: shard_of_def)
  show ?case
  proof (cases "length data < ?k")
    case True
    then show ?thesis
      using w by (simp add: q_def[symmetric])
  next
    case False
    have l1: "lookup ?fs1 r = Some (Dir (AList.update (str sid) ?D es))"
      by (rule lookup_put_parent[OF Cons.prems(1)])
    have d1: "distinct (map str rest)"
      using Cons.prems(2) by simp
    have n1: "\<forall>sid' \<in> set rest. map_of (AList.update (str sid) ?D es) (str sid') = None"
      using Cons.prems(2,3) by (auto simp: update_conv' image_iff)
    have f1: "\<forall>x \<in> set (drop ?k data). fits bo astype x"
      using Cons.prems(4) by (auto dest: in_set_dropD)
    have p1: "length (drop ?k data) < pulls q rest"
      using Cons.prems(5) False by (simp add: pulls_Cons)
    from Cons.IH[OF l1 d1 n1 f1 p1] obtain fs' where
      "shards_loop bo astype ?fs1 (drop ?k data) r sps extra shard_range rest
        = (fs', [], Some StopIteration)"
      by blast
    then show ?thesis
      using w False by (simp add: q_def[symmetric])
  qed
qed

lemma handle_dump_exhausted:
  assumes "empty_target fs path" and "1 \<le> shards"
    and "int (length data) < size'"
    and "\<forall>x \<in> set data. fits bo astype x"
  shows "\<exists>fs'. handle_dump bo astype fs data path shards size' = (fs', [], Some StopIteration)"
proof -
  let ?q = "size_this_shard (size' div shards) (size' mod shards) (range_list shards)"
  let ?fs1 = "if lookup fs path = None then put fs path (Dir []) else fs"
  have pre: "(if \<not> os_path_exists fs path then os_makedirs fs path else Inr fs) = Inr ?fs1"
    using assms(1) by (auto simp: empty_target_def os_path_exists_def os_makedirs_def)
  have root: "lookup ?fs1 path = Some (Dir [])"
    using assms(1) by (auto simp: empty_target_def put_Nil_lookup)
  then have ls: "os_listdir ?fs1 path = Inr []"
    by (simp add: os_listdir_def)
  have "0 \<le> size'"
    using assms(3) by simp
  then have p: "pulls ?q (range_list shards) = nat size'"
    by (rule pulls_range[OF _ assms(2)])
  have "length data < pulls ?q (range_list shards)"
    unfolding p using assms(3) by simp
  from shards_loop_exhausted[OF root distinct_str_range _ assms(4) this]
  obtain fs' where
    "shards_loop bo astype ?fs1 data path (size' div shards) (size' mod shards)
            (range_list shards) (range_list shards) = (fs', [], Some StopIteration)"
    by auto
  then have "handle_dump bo astype fs data path shards size' = (fs', [], Some StopIteration)"
    using assms(2) unfolding handle_dump_def pre
    by (simp only: sum.case ls Let_def) simp
  then show ?thesis by blast
qed

section \<open>The target directory\<close>

lemma is_dir_put_below: "is_dir n r \<Longrightarrow> is_dir (put n (r @ a # q) x) r"
proof (induction r arbitrary: n)
  case Nil
  then show ?case by (cases n) (auto simp: is_dir_def)
next
  case (Cons c cs)
  show ?case
  proof (cases n)
    case (File b)
    then show ?thesis using Cons.prems by (simp add: is_dir_def)
  next
    case (Dir es)
    then obtain ch where ch: "map_of es c = Some ch" "is_dir ch cs"
      using Cons.prems by (auto simp: is_dir_def split: option.splits)
    then show ?thesis
      using Dir Cons.IH[OF ch(2)] by (simp add: is_dir_def update_conv')
  qed
qed

lemma is_dir_fh_write: "is_dir fs r \<Longrightarrow> is_dir (fh_write fs (r @ a # q) bs) r"
  by (auto simp: fh_write_def is_dir_put_below split: option.splits node.splits)

lemma is_dir_open_w: "is_dir fs r \<Longrightarrow> open_w fs (r @ a # q) = Inr fs' \<Longrightarrow> is_dir fs' r"
  by (auto simp: open_w_def is_dir_put_below split: option.splits node.splits)

lemma is_dir_makedirs: "is_dir fs r \<Longrightarrow> os_makedirs fs (r @ a # q) = Inr fs' \<Longrightarrow> is_dir fs' r"
  by (auto simp: os_makedirs_def is_dir_put_below split: if_splits)

lemma is_dir_write_shard_files:
  assumes "is_dir fs r"
    and "write_shard_files bo astype fs data (r @ a # i) (r @ a # m) (r @ a # v) = (fs', data', e)"
  shows "is_dir fs' r"
  using assms
  by (auto simp: write_shard_files_def Let_def is_dir_fh_write split: list.splits sum.splits)

lemma is_dir_write_loop:
  "is_dir fs r \<Longrightarrow>
   write_loop bo astype fs data (r @ a # i) (r @ a # m) (r @ a # v) written quota = (fs', data', e)
   \<Longrightarrow> is_dir fs' r"
proof (induction bo astype fs data "r @ a # i" "r @ a # m" "r @ a # v" written quota
    rule: write_loop.induct)
  case (1 bo astype fs data written quota)
  show ?case
  proof (cases "written < quota")
    case False
    then show ?thesis
      using "1.prems" by (subst (asm) write_loop.simps) simp
  next
    case True
    obtain fs1 data1 e1 where w:
      "write_shard_files bo astype fs data (r @ a # i) (r @ a # m) (r @ a # v) = (fs1, data1, e1)"
      by (cases "write_shard_files bo astype fs data (r @ a # i) (r @ a # m) (r @ a # v)") auto
    have d1: "is_dir fs1 r"
      by (rule is_dir_write_shard_files[OF "1.prems"(1) w])
    show ?thesis
    proof (cases e1)
      case (Some err)
      then have "fs' = fs1"
        using "1.prems"(2) True w by (subst (asm) write_loop.simps) simp
      then show ?thesis using d1 by simp
    next
      case None
      then have "write_loop bo astype fs1 data1 (r @ a # i) (r @ a # m) (r @ a # v)
          (written + 1) quota = (fs', data', e)"
        using "1.prems"(2) True w by (subst (asm) write_loop.simps) simp
      then show ?thesis
        using "1.hyps"[OF True w[symmetric] refl _ d1] None by simp
    qed
  qed
qed

lemma is_dir_write_shard_data:
  assumes "is_dir fs r"
    and "write_shard_data bo astype fs data r sid quota = (fs', data', e)"
  shows "is_dir fs' r"
proof (cases "os_makedirs fs (r @ [str sid])")
  case (Inl err)
  then show ?thesis
    using assms by (simp add: write_shard_data_def)
next
  case mk: (Inr fs1)
  have d1: "is_dir fs1 r"
    by (rule is_dir_makedirs[OF assms(1) mk])
  show ?thesis
  proof (cases "open_w fs1 (r @ [str sid, ''vectors''])")
    case (Inl err)
    then show ?thesis
      using assms(2) mk d1 by (simp add: write_shard_data_def get_file_paths_def)
  next
    case o2: (Inr fs2)
    have d2: "is_dir fs2 r"
      by (rule is_dir_open_w[OF d1 o2])
    show ?thesis
    proof (cases "open_w fs2 (r @ [str sid, ''metas''])")
      case (Inl err)
      then show ?thesis
        using assms(2) mk o2 d2 by (simp add: write_shard_data_def get_file_paths_def)
    next
      case o3: (Inr fs3)
      have d3: "is_dir fs3 r"
        by (rule is_dir_open_w[OF d2 o3])
      show ?thesis
      proof (cases "open_w fs3 (r @ [str sid, ''ids''])")
        case (Inl err)
        then show ?thesis
          using assms(2) mk o2 o3 d3 by (simp add: write_shard_data_def get_file_paths_def)
      next
        case o4: (Inr fs4)
        have d4: "is_dir fs4 r"
          by (rule is_dir_open_w[OF d3 o4])
        have "write_loop bo astype fs4 data (r @ [str sid, ''ids''])
            (r @ [str sid, ''metas'']) (r @ [str sid, ''vectors'']) 0 quota = (fs', data', e)"
          using assms(2) mk o2 o3 o4 by (simp add: write_shard_data_def get_file_paths_def)
        then show ?thesis
          by (rule is_dir_write_loop[OF d4])
      qed
    qed
  qed
qed

lemma is_dir_shards_loop:
  "is_dir fs r \<Longrightarrow>
   shards_loop bo astype fs data r sps extra shard_range rest = (fs', data', e) \<Longrightarrow>
   is_dir fs' r"
proof (induction rest arbitrary: fs data)
  case Nil
  then show ?case by simp
next
  case (Cons sid rest)
  let ?q = "size_this_shard sps extra shard_range"
  obtain fs1 data1 e1 where w:
    "write_shard_data bo astype fs data r sid (?q sid) = (fs1, data1, e1)"
    by (cases "write_shard_data bo astype fs data r sid (?q sid)") auto
  have d1: "is_dir fs1 r"
    by (rule is_dir_write_shard_data[OF Cons.prems(1) w])
  show ?case
  proof (cases e1)
    case (Some err)
    then show ?thesis
      using Cons.prems(2) w d1 by simp
  next
    case None
    then have "shards_loop bo astype fs1 data1 r sps extra shard_range rest = (fs', data', e)"
      using Cons.prems(2) w by simp
    then show ?thesis
      by (rule Cons.IH[OF d1])
  qed
qed

lemma handle_dump_creates_root:
  assumes "lookup fs path = None" and "\<not> file_on_the_way fs path"
    and "handle_dump bo astype fs data path shards size' = (fs', data', e)"
  shows "is_dir fs' path"
proof -
  let ?fs1 = "put fs path (Dir [])"
  have pre: "(if \<not> os_path_exists fs path then os_makedirs fs path else Inr fs) = Inr ?fs1"
    using assms(1,2) by (simp add: os_path_exists_def os_makedirs_def)
  have root: "lookup ?fs1 path = Some (Dir [])"
    using assms(2) by (simp add: put_Nil_lookup)
  then have ls: "os_listdir ?fs1 path = Inr []" and d: "is_dir ?fs1 path"
    by (simp_all add: os_listdir_def is_dir_def)
  show ?thesis
  proof (cases "shards = 0")
    case True
    then show ?thesis
      using assms(3) d unfolding handle_dump_def pre
      by (simp only: sum.case ls Let_def) simp
  next
    case False
    then have "shards_loop bo astype ?fs1 data path (size' div shards) (size' mod shards)
        (range_list shards) (range_list shards) = (fs', data', e)"
      using assms(3) unfolding handle_dump_def pre
      by (simp only: sum.case ls Let_def) simp
    then show ?thesis
      by (rule is_dir_shards_loop[OF d])
  qed
qed

lemma char_eq_of_iff: "c = char_of (n::nat) \<longleftrightarrow> n mod 256 = of_char c"
  using char_of_eq_iff[of n c] by auto

lemmas dump_eval = export_dump_streaming_def handle_dump_def os_path_exists_def os_makedirs_def
  os_listdir_def range_list_def size_this_shard_def write_shard_data_def get_file_paths_def
  open_w_def write_loop.simps write_shard_files_def fh_write_def to_bytes_def BYTE_PADDING_def
  EMPTY_BYTES_def tobytes_def float64_bytes_def utf8_encode_cp_def ascii_def missing_def
  LF_def str_def str_nat.simps digit_char_def Let_def le_bytes_numeral char_of_eq_iff upt_rec

lemmas read_eval = import_all_def import_shard_def import_metas_and_vectors_def
  import_vectors_def import_metas_def ids_gen_def metas_gen_def vecs_gen_def open_r_def
  open_r_joined_def join_name_def os_path_join_def missing_def char_eq_of_iff
  vecs_loop.simps metas_loop.simps from_bytes_def BYTE_PADDING_def EMPTY_BYTES_def
  frombuffer_def yield_def utf8_decode.simps lead_def continuation_def tail_value_def
  ascii_def strip_def isspace_def LF_def CR_def str_def
  str_nat.simps digit_char_def char_of_eq_iff upt_rec Let_def
  imported_ids_def imported_metas_def imported_vecs_def imports_ok_def

text \<open>The codec on single characters: \<open>U+00E0\<close> takes two bytes, \<open>U+20AC\<close> three,
  \<open>U+1F600\<close> four; a surrogate is not encoded; a lone byte \<open>E0\<close>, an overlong form
  and an encoded surrogate are not decoded.\<close>

lemma utf8_examples:
  "utf8_encode [0xE0, LF] = Inr [0xC3, 0xA0, 0x0A]"
  "utf8_encode [0x20AC] = Inr [0xE2, 0x82, 0xAC]"
  "utf8_encode [0x1F600] = Inr [0xF0, 0x9F, 0x98, 0x80]"
  "utf8_encode [0xD800] = Inl UnicodeEncodeError"
  "utf8_decode [0xC3, 0xA0, 0x0A] = Inr [0xE0, LF]"
  "utf8_decode [0xF0, 0x9F, 0x98, 0x80] = Inr [0x1F600]"
  "utf8_decode [0xE0, 0x0A] = Inl UnicodeDecodeError"
  "utf8_decode [0xC0, 0x80] = Inl UnicodeDecodeError"
  "utf8_decode [0xED, 0xA0, 0x80] = Inl UnicodeDecodeError"
  by (simp_all add: utf8_encode_cp_def utf8_decode.simps lead_def continuation_def
      tail_value_def LF_def)

text \<open>Joined paths: with \<open>.\<close> for \<open>pea_id\<close> the files of the directory itself are read;
  a file in the place of the shard directory gives \<open>NotADirectoryError\<close>; a null byte
  gives \<open>ValueError\<close>.\<close>

lemma joined_examples:
  "metas_gen Little (Dir [(''dump'', Dir [(''metas'', File [1, 0, 0, 0, 7])])])
       (os_path_join [''dump''] ''.'') = ([Some [7]], None)"
  "metas_gen Little (Dir [(''dump'', Dir [(''0'', Dir [(''metas'', File [1, 0, 0, 0, 7])])])])
       (os_path_join [''dump''] ''../dump//0/'') = ([Some [7]], None)"
  "metas_gen Little (Dir [(''dump'', Dir []), (''0'', Dir [(''metas'', File [1, 0, 0, 0, 7])])])
       (os_path_join [''dump''] ''/0'') = ([Some [7]], None)"
  "metas_gen Little (Dir [(''dump'', Dir [(''0'', File [])])])
       (os_path_join [''dump''] ''0'') = ([], Some NotADirectoryError)"
  "metas_gen Little (Dir [(''dump'', Dir [])])
       (os_path_join [''dump''] ''0'') = ([], Some FileNotFoundError)"
  "metas_gen Little (Dir [(''dump'', Dir [])])
       (os_path_join [''dump''] [CHR 0x00]) = ([], Some ValueError)"
  by (simp_all add: read_eval)

text \<open>A record of length 0 before a truncated record ends the reading.\<close>

lemma zero_before_truncated:
  "metas_loop Little [1, 0, 0, 0, 7, 0, 0, 0, 0, 5, 0, 0, 0, 1, 2] = ([Some [7]], None)"
  by (simp add: read_eval)

section \<open>Reading well-formed and truncated artifacts\<close>

lemma metas_loop_frames:
  "\<forall>m \<in> set ms. m \<noteq> [] \<and> length m < 256 ^ BYTE_PADDING \<Longrightarrow>
   metas_loop bo (concat (map (frame bo) ms) @ rest)
     = (map Some ms @ fst (metas_loop bo rest), snd (metas_loop bo rest))"
proof (induction ms)
  case Nil
  then show ?case by simp
next
  case (Cons m ms)
  then have "metas_loop bo (frame bo m @ concat (map (frame bo) ms) @ rest)
      = yield (Some m) (metas_loop bo (concat (map (frame bo) ms) @ rest))"
    using metas_loop_frame[of m bo] by simp
  then show ?case
    using Cons by (simp add: yield_def)
qed

lemma vecs_loop_frames:
  "\<forall>ws \<in> set wss. ws \<noteq> [] \<and> length (tobytes bo ws) < 256 ^ BYTE_PADDING \<Longrightarrow>
   vecs_loop bo (concat (map (\<lambda>ws. frame bo (tobytes bo ws)) wss) @ rest)
     = (map Some wss @ fst (vecs_loop bo rest), snd (vecs_loop bo rest))"
proof (induction wss)
  case Nil
  then show ?case by simp
next
  case (Cons ws wss)
  then have ne: "tobytes bo ws \<noteq> []" and l: "length (tobytes bo ws) < 256 ^ BYTE_PADDING"
    by (simp_all add: tobytes_eq_Nil)
  have "vecs_loop bo (frame bo (tobytes bo ws)
          @ concat (map (\<lambda>ws. frame bo (tobytes bo ws)) wss) @ rest)
      = yield (Some ws) (vecs_loop bo (concat (map (\<lambda>ws. frame bo (tobytes bo ws)) wss) @ rest))"
    using vecs_loop_frame[OF ne l, of bo] by (simp add: frombuffer_tobytes)
  then show ?case
    using Cons by (simp add: yield_def)
qed

lemma metas_loop_truncated:
  assumes "to_bytes n BYTE_PADDING bo = Inr s" and "length short < n"
  shows "metas_loop bo (s @ short) = ([if short = [] then None else Some short], None)"
proof -
  have l: "length s = BYTE_PADDING" "from_bytes s bo = n"
    using to_bytes_InrD[OF assms(1)] by auto
  show ?thesis
    using assms(2)
    by (subst metas_loop.simps) (simp add: l EMPTY_BYTES_def yield_def metas_loop_Nil)
qed

lemma vecs_loop_truncated:
  assumes "to_bytes n BYTE_PADDING bo = Inr s" and "length short < n"
  shows "vecs_loop bo (s @ short)
    = (if short = [] then ([None], None)
       else case frombuffer bo short of
              Inl e \<Rightarrow> ([], Some e)
            | Inr vec \<Rightarrow> ([Some vec], None))"
proof -
  have l: "length s = BYTE_PADDING" "from_bytes s bo = n"
    using to_bytes_InrD[OF assms(1)] by auto
  show ?thesis
    using assms(2)
    by (subst vecs_loop.simps)
      (simp add: l EMPTY_BYTES_def yield_def vecs_loop_Nil split: sum.splits)
qed

section \<open>The files of each shard\<close>

lemma shard_of_files:
  assumes "lookup fs sp = Some (shard_of bo astype recs)"
  shows "lookup fs (sp @ [''ids'']) = Some (File (ids_of recs))"
    and "lookup fs (sp @ [''vectors'']) = Some (File (vectors_of bo astype recs))"
    and "lookup fs (sp @ [''metas'']) = Some (File (metas_of bo recs))"
  using assms by (simp_all add: lookup_append shard_of_def shard_dir_def)

lemma dump_shard_files:
  assumes "empty_target fs path" and "1 \<le> shards" and "0 \<le> size'"
    and "nat size' \<le> length data"
    and "\<forall>x \<in> set (take (nat size') data). fits bo astype x"
  shows "\<exists>fs'. export_dump_streaming bo astype fs data path shards size'
        = (fs', drop (nat size') data, None)
    \<and> (\<forall>i < nat shards.
          lookup fs' (path @ [str (int i), ''ids''])
            = Some (File (ids_of (shard_slice size' shards data i)))
        \<and> lookup fs' (path @ [str (int i), ''vectors''])
            = Some (File (vectors_of bo astype (shard_slice size' shards data i)))
        \<and> lookup fs' (path @ [str (int i), ''metas''])
            = Some (File (metas_of bo (shard_slice size' shards data i))))"
proof -
  from handle_dump_written[OF assms]
  obtain fs' where
    run: "handle_dump bo astype fs data path shards size' = (fs', drop (nat size') data, None)" and
    shards: "\<forall>i < nat shards. lookup fs' (path @ [str (int i)])
          = Some (shard_of bo astype (shard_slice size' shards data i))"
    by (auto simp: shard_slice_def)
  have "lookup fs' (path @ [str (int i), ''ids''])
            = Some (File (ids_of (shard_slice size' shards data i)))
        \<and> lookup fs' (path @ [str (int i), ''vectors''])
            = Some (File (vectors_of bo astype (shard_slice size' shards data i)))
        \<and> lookup fs' (path @ [str (int i), ''metas''])
            = Some (File (metas_of bo (shard_slice size' shards data i)))"
    if "i < nat shards" for i
    using shard_of_files[of fs' "path @ [str (int i)]" bo astype "shard_slice size' shards data i"]
      shards that by simp
  then show ?thesis
    using run by (auto simp: export_dump_streaming_def)
qed

lemma shards_loop_plan:
  "shards_loop bo astype fs data path size_per_shard extra shard_range sids
     = write_plan bo astype fs data path
         (map (\<lambda>sid. (sid, size_this_shard size_per_shard extra shard_range sid)) sids)"
proof (induction sids arbitrary: fs data)
  case Nil
  then show ?case by simp
next
  case (Cons sid sids)
  show ?case
  proof (cases "write_shard_data bo astype fs data path sid
      (size_this_shard size_per_shard extra shard_range sid)")
    case (fields fs' data' e)
    then show ?thesis
      using Cons by (cases e) simp_all
  qed
qed

lemma zip_map_self: "zip xs (map f xs) = map (\<lambda>x. (x, f x)) xs"
  by (induction xs) auto

lemma handle_dump_plan:
  assumes "empty_target fs path" and "shards \<noteq> 0"
  shows "handle_dump bo astype fs data path shards size'
     = write_plan bo astype (if lookup fs path = None then put fs path (Dir []) else fs) data path
         (zip (range_list shards) (quotas size' shards))"
proof -
  let ?fs1 = "if lookup fs path = None then put fs path (Dir []) else fs"
  have pre: "(if \<not> os_path_exists fs path then os_makedirs fs path else Inr fs) = Inr ?fs1"
    using assms(1) by (auto simp: empty_target_def os_path_exists_def os_makedirs_def)
  have root: "lookup ?fs1 path = Some (Dir [])"
    using assms(1) by (auto simp: empty_target_def put_Nil_lookup)
  then have ls: "os_listdir ?fs1 path = Inr []"
    by (simp add: os_listdir_def)
  show ?thesis
    unfolding handle_dump_def pre
    by (simp only: sum.case ls Let_def shards_loop_plan quotas_def zip_map_self) (simp add: assms(2))
qed

lemma slice_length_nat:
  fixes ks :: "nat list"
  assumes "sum_list ks \<le> length data" and "i < length ks"
  shows "length (take (ks ! i) (drop (sum_list (take i ks)) data)) = ks ! i"
proof -
  have "ks = take i ks @ ks ! i # drop (Suc i) ks"
    using assms(2) by (rule id_take_nth_drop)
  then have "sum_list ks = sum_list (take i ks) + ks ! i + sum_list (drop (Suc i) ks)"
    by (metis add.assoc sum_list.Cons sum_list_append)
  then show ?thesis
    using assms(1) by simp
qed

lemma shard_slice_length:
  assumes "0 \<le> size'" and "1 \<le> shards" and "nat size' \<le> length data" and "i < nat shards"
  shows "int (length (shard_slice size' shards data i)) = quotas size' shards ! i"
proof -
  let ?ks = "map nat (quotas size' shards)"
  have nn: "\<forall>x \<in> set (take i (quotas size' shards)). 0 \<le> x" for i
    using quotas_nonneg[OF assms(1,2)] by (auto dest: in_set_takeD)
  have i: "i < length (quotas size' shards)"
    using assms(4) by (simp add: quotas_length)
  have "sum_list (take i ?ks) = nat (sum_list (take i (quotas size' shards)))"
    using sum_list_nat[OF nn, of i] by (simp add: take_map)
  then have e: "shard_slice size' shards data i = take (?ks ! i) (drop (sum_list (take i ?ks)) data)"
    using i by (simp add: shard_slice_def)
  have "sum_list ?ks = nat size'"
    using sum_list_nat[OF nn, of "length (quotas size' shards)"] quotas_sum[OF assms(2), of size']
    by simp
  then have "length (shard_slice size' shards data i) = ?ks ! i"
    unfolding e using slice_length_nat[of ?ks data i] assms(3) i by simp
  moreover have "0 \<le> quotas size' shards ! i"
    using quotas_nonneg[OF assms(1,2)] i by simp
  ultimately show ?thesis
    using i by simp
qed

lemma slice_in_take:
  assumes "0 \<le> size'" and "1 \<le> shards" and "i < nat shards"
  shows "set (shard_slice size' shards data i) \<subseteq> set (take (nat size') data)"
proof -
  have "set (shard_slice size' shards data i)
      \<subseteq> set (concat (map (shard_slice size' shards data) [0..<nat shards]))"
    using assms(3) by auto
  then show ?thesis
    by (simp only: slices_concat[OF assms(1,2)])
qed

lemma slice_encode:
  assumes "empty_target fs path \<and> 1 \<le> shards \<and> 0 \<le> size' \<and> nat size' \<le> length data
      \<and> (\<forall>x \<in> set (take (nat size') data). fits bo astype x)"
    and "i < nat shards"
  shows "utf8_encode (concat (map (\<lambda>r. fst r @ [LF])
            (shard_slice size' shards data i)))
     = Inr (ids_of (shard_slice size' shards data i))"
proof (rule ids_of_encode)
  show "\<forall>r \<in> set (shard_slice size' shards data i). fits bo astype r"
    using assms slice_in_take[of size' shards i data] by auto
qed

lemma quotas_5_2: "quotas 5 2 = [2, 3]"
  by (simp add: quotas_eq)

lemma str_0_1: "str 0 = ''0''" "str 1 = ''1''"
  by (simp_all add: str_def str_nat.simps digit_char_def char_of_eq_iff)

section \<open>The properties of the specification\<close>

subsection \<open>C1: round trip\<close>

text \<open>
  Claim C1 (round trip), for the records the code stores faithfully. Let every record have
  an id that UTF-8 can encode (a string of code points without surrogate), without line
  break (\<open>\n\<close> or \<open>\r\<close>) and neither beginning nor ending with a character that
  \<open>str.isspace\<close> accepts, a vector that is a non-empty array, and non-empty metadata,
  each payload shorter than \<open>2 ^ 32\<close> bytes. Dumping these records, with their number as total size and at least one shard, into a
  target that is absent or an empty directory returns normally with the producer consumed.
  Importing every shard with \<open>import_metas_and_vectors\<close> and concatenating the results in
  the order of the shards gives back the ids, the metadata bytes and the vectors as float64
  arrays (an array of another dtype as its cast to float64), and no generator raises.
  Nothing is stated here about absent or empty vectors and metadata.
\<close>

theorem round_trip_storable:
  assumes "empty_target fs path" and "1 \<le> shards" and "\<forall>r \<in> set data. storable bo astype r"
  shows "\<exists>fs'.
      export_dump_streaming bo astype fs data path shards (int (length data)) = (fs', [], None)
    \<and> imported_ids bo fs' path shards = map (\<lambda>(id', vec, meta). id') data
    \<and> imported_metas bo fs' path shards = map (\<lambda>(id', vec, meta). meta) data
    \<and> imported_vecs bo fs' path shards = map (\<lambda>(id', vec, meta). read_vec astype vec) data
    \<and> imports_ok bo fs' path shards"
proof -
  let ?n = "int (length data)"
  have fit: "\<forall>x \<in> set (take (nat ?n) data). fits bo astype x"
    using assms(3) by (auto intro: storable_fits)
  from handle_dump_written[OF assms(1,2), of ?n data bo astype] fit
  obtain fs' where
    run: "handle_dump bo astype fs data path shards ?n = (fs', [], None)" and
    shards: "\<forall>i < nat shards. lookup fs' (path @ [str (int i)])
          = Some (shard_of bo astype (shard_slice ?n shards data i))"
    by (auto simp: shard_slice_def)
  have imp: "import_shard bo fs' path (str (int i))
     = ((map fst (shard_slice ?n shards data i), None),
        (map (\<lambda>(id', vec, meta). meta) (shard_slice ?n shards data i), None),
        (map (\<lambda>(id', vec, meta). read_vec astype vec) (shard_slice ?n shards data i), None))"
    if "i < nat shards" for i
  proof (rule import_shard_storable)
    show "lookup fs' (path @ [str (int i)]) = Some (shard_of bo astype (shard_slice ?n shards data i))"
      using shards that by simp
    show "\<forall>r \<in> set (shard_slice ?n shards data i). storable bo astype r"
      using assms(3) slice_subset[of ?n shards data i] by auto
    show "plain_name (str (int i))"
      by (rule plain_name_str)
  qed
  have all: "import_all bo fs' path shards
      = map (\<lambda>i. ((map fst (shard_slice ?n shards data i), None),
        (map (\<lambda>(id', vec, meta). meta) (shard_slice ?n shards data i), None),
        (map (\<lambda>(id', vec, meta). read_vec astype vec) (shard_slice ?n shards data i), None)))
         [0..<nat shards]"
    unfolding import_all_def by (rule map_cong) (auto simp: imp)
  have cat: "concat (map (shard_slice ?n shards data) [0..<nat shards]) = data"
    using slices_concat[OF _ assms(2), of ?n data] by simp
  have c: "concat (map (\<lambda>i. map f (shard_slice ?n shards data i)) [0..<nat shards]) = map f data"
    for f :: "'a rec \<Rightarrow> 'b"
  proof -
    have "concat (map (\<lambda>i. map f (shard_slice ?n shards data i)) [0..<nat shards])
        = map f (concat (map (shard_slice ?n shards data) [0..<nat shards]))"
      by (simp add: map_concat comp_def)
    then show ?thesis by (simp only: cat)
  qed
  have fst_eq: "fst = (\<lambda>(id', vec, meta). id')" for dummy :: "'a rec"
    by auto
  have "export_dump_streaming bo astype fs data path shards ?n = (fs', [], None)"
    using run by (simp add: export_dump_streaming_def)
  moreover have "imported_ids bo fs' path shards = map (\<lambda>(id', vec, meta). id') data"
    using c[of fst] by (simp add: imported_ids_def all comp_def fst_eq)
  moreover have "imported_metas bo fs' path shards = map (\<lambda>(id', vec, meta). meta) data"
    using c[of "\<lambda>(id', vec, meta). meta"] by (simp add: imported_metas_def all comp_def)
  moreover have "imported_vecs bo fs' path shards
      = map (\<lambda>(id', vec, meta). read_vec astype vec) data"
    using c[of "\<lambda>(id', vec, meta). read_vec astype vec"]
    by (simp add: imported_vecs_def all comp_def)
  moreover have "imports_ok bo fs' path shards"
    by (simp add: imports_ok_def all list_all_iff)
  ultimately show ?thesis by blast
qed

theorem round_trip_storable_witness:
  "empty_target (Dir []) [''dump''] \<and> (1::int) \<le> 2
   \<and> storable Little (\<lambda>_::unit. 0)
        (ascii ''a'', Some (NdArray (Float64Array [1, 2])), Some [7])
   \<and> storable Little (\<lambda>_::unit. 0) ([0xE0], Some (NdArray (OtherArray [()])), Some [8, 9])
   \<and> storable Little (\<lambda>_::unit. 0) ([0x1F600], Some (NdArray (Float64Array [3])), Some [10])
   \<and> (\<exists>fs'. export_dump_streaming Little (\<lambda>_::unit. 0) (Dir [])
          [(ascii ''a'', Some (NdArray (Float64Array [1, 2])), Some [7]),
           ([0xE0], Some (NdArray (OtherArray [()])), Some [8, 9]),
           ([0x1F600], Some (NdArray (Float64Array [3])), Some [10])] [''dump''] 2 3
        = (fs', [], None)
      \<and> imported_ids Little fs' [''dump''] 2 = [ascii ''a'', [0xE0], [0x1F600]]
      \<and> imported_metas Little fs' [''dump''] 2 = [Some [7], Some [8, 9], Some [10]]
      \<and> imported_vecs Little fs' [''dump''] 2 = [Some [1, 2], Some [0], Some [3]]
      \<and> imports_ok Little fs' [''dump''] 2)"
proof -
  have s: "storable Little (\<lambda>_::unit. 0)
      (ascii ''a'', Some (NdArray (Float64Array [1, 2])), Some [7])"
    "storable Little (\<lambda>_::unit. 0) ([0xE0], Some (NdArray (OtherArray [()])), Some [8, 9])"
    "storable Little (\<lambda>_::unit. 0) ([0x1F600], Some (NdArray (Float64Array [3])), Some [10])"
    by (simp_all add: storable_def valid_id_def fits_def float64_of_def vec_payload_def
        meta_payload_def tobytes_length BYTE_PADDING_def LF_def CR_def isspace_def
        encodable_def utf8_encode_cp_def ascii_def)
  have e: "empty_target (Dir []) [''dump'']"
    by (simp add: empty_target_def)
  show ?thesis
    using round_trip_storable[of "Dir []" "[''dump'']" 2
        "[(ascii ''a'', Some (NdArray (Float64Array [1, 2])), Some [7]),
          ([0xE0], Some (NdArray (OtherArray [()])), Some [8, 9]),
          ([0x1F600], Some (NdArray (Float64Array [3])), Some [10])]" Little "\<lambda>_::unit. 0"] s e
    by (simp add: read_vec_def float64_of_def)
qed

text \<open>
  The claim as the specification states it, for every sequence of records, fails on an id
  that ends with a space: \<open>_ids_gen\<close> strips each line, so the id \<open>a\<close> followed by a
  space, of a dump that returned normally, is read back as \<open>a\<close>.
\<close>

theorem round_trip_counterexample:
  "snd (snd (export_dump_streaming Little (\<lambda>_::unit. 0) (Dir [])
      [(ascii ''a '', Some (NdArray (Float64Array [1])), Some [1])] [''dump''] 1 1)) = None
   \<and> imported_ids Little
        (fst (export_dump_streaming Little (\<lambda>_::unit. 0) (Dir [])
           [(ascii ''a '', Some (NdArray (Float64Array [1])), Some [1])] [''dump''] 1 1))
        [''dump''] 1 = [ascii ''a'']
   \<and> imported_ids Little
        (fst (export_dump_streaming Little (\<lambda>_::unit. 0) (Dir [])
           [(ascii ''a '', Some (NdArray (Float64Array [1])), Some [1])] [''dump''] 1 1))
        [''dump''] 1 \<noteq> [ascii ''a '']"
proof -
  have d: "export_dump_streaming Little (\<lambda>_::unit. 0) (Dir [])
      [(ascii ''a '', Some (NdArray (Float64Array [1])), Some [1])] [''dump''] 1 1
    = (Dir [(''dump'',
         Dir [(''0'',
               Dir [(''vectors'', File [8, 0, 0, 0, 1, 0, 0, 0, 0, 0, 0, 0]),
                    (''metas'', File [1, 0, 0, 0, 1]),
                    (''ids'', File [97, 32, 10])])])],
       [], None)"
    by (simp add: dump_eval)
  show ?thesis
    unfolding d by (simp add: read_eval)
qed

subsection \<open>C2: a zero length is not the end of the stream\<close>

text \<open>
  Claim C2 (the readers yield absent for a zero-length entry and go on). The code does
  otherwise: both reader loops leave at the first length prefix that is 0. Dumping a
  record without vector and metadata followed by a record with both writes, into each
  artifact, a zero length prefix followed by the frame of the second record; reading this
  shard (the generators of the path joined with the shard name \<open>0\<close>) gives both ids, but neither \<open>_vecs_gen\<close> nor \<open>_metas_gen\<close> yields anything,
  and both end normally.
\<close>

theorem zero_length_ends_stream:
  "export_dump_streaming Little (\<lambda>_::unit. 0) (Dir [])
      [(ascii ''a'', None, None), (ascii ''b'', Some (NdArray (Float64Array [1])), Some [7])] [''dump''] 1 2
    = (Dir [(''dump'',
         Dir [(''0'',
               Dir [(''vectors'', File [0, 0, 0, 0, 8, 0, 0, 0, 1, 0, 0, 0, 0, 0, 0, 0]),
                    (''metas'', File [0, 0, 0, 0, 1, 0, 0, 0, 7]),
                    (''ids'', File [97, 10, 98, 10])])])],
       [], None)
   \<and> ids_gen
        (Dir [(''dump'',
           Dir [(''0'',
                 Dir [(''vectors'', File [0, 0, 0, 0, 8, 0, 0, 0, 1, 0, 0, 0, 0, 0, 0, 0]),
                      (''metas'', File [0, 0, 0, 0, 1, 0, 0, 0, 7]),
                      (''ids'', File [97, 10, 98, 10])])])]) (os_path_join [''dump''] ''0'')
       = ([ascii ''a'', ascii ''b''], None)
   \<and> vecs_gen Little
        (Dir [(''dump'',
           Dir [(''0'',
                 Dir [(''vectors'', File [0, 0, 0, 0, 8, 0, 0, 0, 1, 0, 0, 0, 0, 0, 0, 0]),
                      (''metas'', File [0, 0, 0, 0, 1, 0, 0, 0, 7]),
                      (''ids'', File [97, 10, 98, 10])])])]) (os_path_join [''dump''] ''0'')
       = ([], None)
   \<and> metas_gen Little
        (Dir [(''dump'',
           Dir [(''0'',
                 Dir [(''vectors'', File [0, 0, 0, 0, 8, 0, 0, 0, 1, 0, 0, 0, 0, 0, 0, 0]),
                      (''metas'', File [0, 0, 0, 0, 1, 0, 0, 0, 7]),
                      (''ids'', File [97, 10, 98, 10])])])]) (os_path_join [''dump''] ''0'')
       = ([], None)"
proof -
  have d: "export_dump_streaming Little (\<lambda>_::unit. 0) (Dir [])
      [(ascii ''a'', None, None), (ascii ''b'', Some (NdArray (Float64Array [1])), Some [7])] [''dump''] 1 2
    = (Dir [(''dump'',
         Dir [(''0'',
               Dir [(''vectors'', File [0, 0, 0, 0, 8, 0, 0, 0, 1, 0, 0, 0, 0, 0, 0, 0]),
                    (''metas'', File [0, 0, 0, 0, 1, 0, 0, 0, 7]),
                    (''ids'', File [97, 10, 98, 10])])])],
       [], None)"
    by (simp add: dump_eval)
  show ?thesis
    unfolding d by (simp add: read_eval)
qed

subsection \<open>C3: quota conservation\<close>

text \<open>
  Claim C3 (quota conservation). For a total size of at least 0 and at least one shard,
  the quotas that the loop of \<open>_handle_dump\<close> computes are one per shard; every shard
  but the last gets \<open>size // shards\<close>; the last gets \<open>size // shards + size % shards\<close>;
  no quota is negative; the quotas add up to the total size; and only the last shard's
  quota can exceed \<open>size // shards\<close>. These are the quotas the writer works with: on a
  target that is absent or empty, \<open>export_dump_streaming\<close> is the writing of the shards
  \<open>0\<close> to \<open>shards - 1\<close> by \<open>_write_shard_data\<close>, each with its quota, whatever the
  producer holds; and when the producer holds at least \<open>size\<close> records that can be written,
  the dump returns normally and the number of records in the directory of each shard is
  its quota.
\<close>

theorem quota_conservation:
  assumes "0 \<le> size'" and "1 \<le> shards"
  shows "length (quotas size' shards) = nat shards
    \<and> (\<forall>i < nat shards - 1. quotas size' shards ! i = size' div shards)
    \<and> last (quotas size' shards) = size' div shards + size' mod shards
    \<and> (\<forall>q \<in> set (quotas size' shards). 0 \<le> q)
    \<and> sum_list (quotas size' shards) = size'
    \<and> (\<forall>i < nat shards. size' div shards < quotas size' shards ! i \<longrightarrow> i = nat shards - 1)
    \<and> (empty_target fs path \<longrightarrow>
         export_dump_streaming bo astype fs data path shards size'
           = write_plan bo astype (if lookup fs path = None then put fs path (Dir []) else fs)
               data path (zip (range_list shards) (quotas size' shards)))
    \<and> (empty_target fs path \<and> nat size' \<le> length data
          \<and> (\<forall>x \<in> set (take (nat size') data). fits bo astype x) \<longrightarrow>
         (\<exists>fs'. export_dump_streaming bo astype fs data path shards size'
                 = (fs', drop (nat size') data, None)
            \<and> (\<forall>i < nat shards.
                  lookup fs' (path @ [str (int i)])
                    = Some (shard_of bo astype (shard_slice size' shards data i))
                  \<and> int (length (shard_slice size' shards data i)) = quotas size' shards ! i)))"
proof -
  let ?n = "nat shards - 1"
  have q: "quotas size' shards =
      replicate ?n (size' div shards) @ [size' div shards + size' mod shards]"
    by (rule quotas_eq[OF assms(2)])
  have nn: "0 \<le> size' div shards" "0 \<le> size' mod shards"
    using assms by (simp_all add: pos_imp_zdiv_nonneg_iff)
  have s: "int ?n * (size' div shards) + (size' div shards + size' mod shards) = size'"
  proof -
    have "int ?n = shards - 1" using assms by simp
    then show ?thesis by (simp add: algebra_simps)
  qed
  have arith: "length (quotas size' shards) = nat shards
    \<and> (\<forall>i < nat shards - 1. quotas size' shards ! i = size' div shards)
    \<and> last (quotas size' shards) = size' div shards + size' mod shards
    \<and> (\<forall>q \<in> set (quotas size' shards). 0 \<le> q)
    \<and> sum_list (quotas size' shards) = size'
    \<and> (\<forall>i < nat shards. size' div shards < quotas size' shards ! i \<longrightarrow> i = nat shards - 1)"
    unfolding q using assms nn s
    by (auto simp: nth_append sum_list_replicate)
  have plan: "empty_target fs path \<longrightarrow>
         export_dump_streaming bo astype fs data path shards size'
           = write_plan bo astype (if lookup fs path = None then put fs path (Dir []) else fs)
               data path (zip (range_list shards) (quotas size' shards))"
  proof
    assume e: "empty_target fs path"
    have "shards \<noteq> 0"
      using assms(2) by simp
    from handle_dump_plan[OF e this]
    show "export_dump_streaming bo astype fs data path shards size'
           = write_plan bo astype (if lookup fs path = None then put fs path (Dir []) else fs)
               data path (zip (range_list shards) (quotas size' shards))"
      by (simp only: export_dump_streaming_def)
  qed
  have written: "\<exists>fs'. export_dump_streaming bo astype fs data path shards size'
                 = (fs', drop (nat size') data, None)
            \<and> (\<forall>i < nat shards.
                  lookup fs' (path @ [str (int i)])
                    = Some (shard_of bo astype (shard_slice size' shards data i))
                  \<and> int (length (shard_slice size' shards data i)) = quotas size' shards ! i)"
    if h: "empty_target fs path \<and> nat size' \<le> length data
          \<and> (\<forall>x \<in> set (take (nat size') data). fits bo astype x)"
  proof -
    from h have h1: "empty_target fs path" and h2: "nat size' \<le> length data"
      and h3: "\<forall>x \<in> set (take (nat size') data). fits bo astype x"
      by simp_all
    from handle_dump_written[OF h1 assms(2,1) h2 h3]
    obtain fs' where
      run: "handle_dump bo astype fs data path shards size' = (fs', drop (nat size') data, None)"
      and shards: "\<forall>i < nat shards. lookup fs' (path @ [str (int i)])
          = Some (shard_of bo astype (shard_slice size' shards data i))"
      by (auto simp: shard_slice_def)
    show ?thesis
      using run shards shard_slice_length[OF assms h2]
      by (auto simp: export_dump_streaming_def)
  qed
  show ?thesis
    using arith plan written by blast
qed

theorem quota_conservation_witness:
  "(0::int) \<le> 5 \<and> (1::int) \<le> 2
    \<and> length (quotas 5 2) = 2 \<and> quotas 5 2 ! 0 = 2 \<and> last (quotas 5 2) = 3
    \<and> sum_list (quotas 5 2) = 5
    \<and> empty_target (Dir []) [''dump'']
    \<and> export_dump_streaming Little (\<lambda>_::unit. 0) (Dir []) [(ascii ''a'', None, None)] [''dump''] 2 5
        = write_plan Little (\<lambda>_::unit. 0) (Dir [(''dump'', Dir [])]) [(ascii ''a'', None, None)]
            [''dump''] [(0, 2), (1, 3)]"
proof -
  have e: "empty_target (Dir []) [''dump'']"
    by (simp add: empty_target_def)
  have z: "zip (range_list 2) (quotas 5 2) = [(0, 2), (1, 3)]"
    by (simp add: quotas_eq range_list_def upt_rec)
  have q: "quotas 5 2 = [2, 3]"
    by (simp add: quotas_eq)
  note t = quota_conservation[of 5 2 "Dir []" "[''dump'']" Little "\<lambda>_::unit. 0"
      "[(ascii ''a'', None, None)]"]
  have p: "export_dump_streaming Little (\<lambda>_::unit. 0) (Dir []) [(ascii ''a'', None, None)]
        [''dump''] 2 5
      = write_plan Little (\<lambda>_::unit. 0) (Dir [(''dump'', Dir [])]) [(ascii ''a'', None, None)]
          [''dump''] [(0, 2), (1, 3)]"
    using t e by (simp add: z)
  show ?thesis
    using t by (intro conjI e p) (simp_all add: q)
qed

subsection \<open>C4: sequential partition\<close>

text \<open>
  Claim C4 (sequential partition, and the scenario of 5 records in 2 shards). The dump of
  \<open>size\<close> records that can be written into \<open>shards\<close> shards, on a target that is
  absent or empty, returns normally, and shard \<open>i\<close> holds the
  records that follow the quotas of the shards before it, as many as its own quota: its
  \<open>ids\<close> file is the UTF-8 encoding of the ids of these records in pull order, each
  followed by a newline, and its \<open>vectors\<close> and \<open>metas\<close> files are the
  length-prefixed payloads of the same records in the same order. In particular, for 5 records with ids a to e, vectors of 3 float64
  elements and no metadata, dumped into 2 shards: the quotas are 2 and 3, the ids file of
  shard 0 is \<open>a\nb\n\<close> (the bytes 97, 10, 98, 10), that of shard 1 is \<open>c\nd\ne\n\<close>,
  and the vectors file of shard 1 is three payloads of 24 bytes, each after the 4-byte
  prefix of the number 24.
\<close>

theorem sequential_partition:
  "(empty_target fs path \<and> 1 \<le> shards \<and> 0 \<le> size' \<and> nat size' \<le> length data
      \<and> (\<forall>x \<in> set (take (nat size') data). fits bo astype x)
    \<longrightarrow> (\<exists>fs'. export_dump_streaming bo astype fs data path shards size'
            = (fs', drop (nat size') data, None)
        \<and> (\<forall>i < nat shards.
              utf8_encode (concat (map (\<lambda>r. fst r @ [LF])
                  (shard_slice size' shards data i)))
                = Inr (ids_of (shard_slice size' shards data i))
            \<and> lookup fs' (path @ [str (int i), ''ids''])
                = Some (File (ids_of (shard_slice size' shards data i)))
            \<and> lookup fs' (path @ [str (int i), ''vectors''])
                = Some (File (vectors_of bo astype (shard_slice size' shards data i)))
            \<and> lookup fs' (path @ [str (int i), ''metas''])
                = Some (File (metas_of bo (shard_slice size' shards data i))))))
   \<and> (empty_target fs path \<and> length v0 = 3 \<and> length v1 = 3 \<and> length v2 = 3
        \<and> length v3 = 3 \<and> length v4 = 3
    \<longrightarrow> quotas 5 2 = [2, 3]
      \<and> (\<exists>fs' s. export_dump_streaming bo astype fs
              [(ascii ''a'', Some (NdArray (Float64Array v0)), None),
               (ascii ''b'', Some (NdArray (Float64Array v1)), None),
               (ascii ''c'', Some (NdArray (Float64Array v2)), None),
               (ascii ''d'', Some (NdArray (Float64Array v3)), None),
               (ascii ''e'', Some (NdArray (Float64Array v4)), None)] path 2 5 = (fs', [], None)
          \<and> lookup fs' (path @ [''0'', ''ids''])
              = Some (File [97, 10, 98, 10])
          \<and> lookup fs' (path @ [''1'', ''ids''])
              = Some (File [99, 10, 100, 10, 101, 10])
          \<and> to_bytes 24 BYTE_PADDING bo = Inr s
          \<and> lookup fs' (path @ [''1'', ''vectors''])
              = Some (File (s @ tobytes bo v2 @ s @ tobytes bo v3 @ s @ tobytes bo v4))
          \<and> length (tobytes bo v2) = 24 \<and> length (tobytes bo v3) = 24
          \<and> length (tobytes bo v4) = 24))"
proof (intro conjI impI)
  assume "empty_target fs path \<and> 1 \<le> shards \<and> 0 \<le> size' \<and> nat size' \<le> length data
      \<and> (\<forall>x \<in> set (take (nat size') data). fits bo astype x)"
  then show "\<exists>fs'. export_dump_streaming bo astype fs data path shards size'
            = (fs', drop (nat size') data, None)
        \<and> (\<forall>i < nat shards.
              utf8_encode (concat (map (\<lambda>r. fst r @ [LF])
                  (shard_slice size' shards data i)))
                = Inr (ids_of (shard_slice size' shards data i))
            \<and> lookup fs' (path @ [str (int i), ''ids''])
                = Some (File (ids_of (shard_slice size' shards data i)))
            \<and> lookup fs' (path @ [str (int i), ''vectors''])
                = Some (File (vectors_of bo astype (shard_slice size' shards data i)))
            \<and> lookup fs' (path @ [str (int i), ''metas''])
                = Some (File (metas_of bo (shard_slice size' shards data i))))"
    using dump_shard_files[of fs path shards size' data bo astype]
      slice_encode[of fs path shards size' data bo astype] by blast
next
  assume "empty_target fs path \<and> length v0 = 3 \<and> length v1 = 3 \<and> length v2 = 3
        \<and> length v3 = 3 \<and> length v4 = 3"
  then show "quotas 5 2 = [2, 3]"
    by (simp add: quotas_5_2)
next
  assume h: "empty_target fs path \<and> length v0 = 3 \<and> length v1 = 3 \<and> length v2 = 3
        \<and> length v3 = 3 \<and> length v4 = 3"
  define data :: "'a rec list" where "data =
              [(ascii ''a'', Some (NdArray (Float64Array v0)), None),
               (ascii ''b'', Some (NdArray (Float64Array v1)), None),
               (ascii ''c'', Some (NdArray (Float64Array v2)), None),
               (ascii ''d'', Some (NdArray (Float64Array v3)), None),
               (ascii ''e'', Some (NdArray (Float64Array v4)), None)]"
  have len: "length (tobytes bo v0) = 24" "length (tobytes bo v1) = 24"
    "length (tobytes bo v2) = 24" "length (tobytes bo v3) = 24" "length (tobytes bo v4) = 24"
    using h by (simp_all add: tobytes_length)
  have fit: "\<forall>x \<in> set (take (nat 5) data). fits bo astype x"
    by (simp add: data_def fits_def vec_payload_def meta_payload_def len EMPTY_BYTES_def
        BYTE_PADDING_def encodable_def utf8_encode_cp_def ascii_def)
  from dump_shard_files[of fs path 2 5 data bo astype] h fit
  obtain fs' where
    run: "export_dump_streaming bo astype fs data path 2 5 = (fs', [], None)" and
    files: "\<forall>i < nat 2.
              lookup fs' (path @ [str (int i), ''ids''])
                = Some (File (ids_of (shard_slice 5 2 data i)))
            \<and> lookup fs' (path @ [str (int i), ''vectors''])
                = Some (File (vectors_of bo astype (shard_slice 5 2 data i)))
            \<and> lookup fs' (path @ [str (int i), ''metas''])
                = Some (File (metas_of bo (shard_slice 5 2 data i)))"
    by (auto simp: data_def)
  obtain s where s: "to_bytes 24 BYTE_PADDING bo = Inr s"
    using to_bytes_Inr[of 24 BYTE_PADDING bo] by (auto simp: BYTE_PADDING_def)
  have fr: "frame bo (tobytes bo v) = s @ tobytes bo v" if "length v = 3" for v
    using that s by (simp add: frame_def tobytes_length)
  have s0: "shard_slice 5 2 data 0 = take 2 data" 
    and s1: "shard_slice 5 2 data (Suc 0) = take 3 (drop 2 data)"
    by (simp_all add: shard_slice_def quotas_5_2)
  have f0: "lookup fs' (path @ [''0'', ''ids'']) = Some (File (ids_of (take 2 data)))"
    using files[rule_format, of 0] unfolding s0 by (simp add: str_0_1)
  have f1: "lookup fs' (path @ [''1'', ''ids'']) = Some (File (ids_of (take 3 (drop 2 data))))"
    and v1: "lookup fs' (path @ [''1'', ''vectors''])
      = Some (File (vectors_of bo astype (take 3 (drop 2 data))))"
    using files[rule_format, of "Suc 0"] unfolding s1 by (simp_all add: str_0_1)
  have i0: "ids_of (take 2 data) = [97, 10, 98, 10]"
    by (simp add: data_def ids_of_def id_line_def utf8_encode_cp_def ascii_def LF_def)
  have i1: "ids_of (take 3 (drop 2 data)) = [99, 10, 100, 10, 101, 10]"
    by (simp add: data_def ids_of_def id_line_def utf8_encode_cp_def ascii_def LF_def)
  have vv: "vectors_of bo astype (take 3 (drop 2 data))
      = s @ tobytes bo v2 @ s @ tobytes bo v3 @ s @ tobytes bo v4"
    using h by (simp add: data_def vectors_of_def vec_payload_def fr)
  show "\<exists>fs' s. export_dump_streaming bo astype fs
              [(ascii ''a'', Some (NdArray (Float64Array v0)), None),
               (ascii ''b'', Some (NdArray (Float64Array v1)), None),
               (ascii ''c'', Some (NdArray (Float64Array v2)), None),
               (ascii ''d'', Some (NdArray (Float64Array v3)), None),
               (ascii ''e'', Some (NdArray (Float64Array v4)), None)] path 2 5 = (fs', [], None)
          \<and> lookup fs' (path @ [''0'', ''ids''])
              = Some (File [97, 10, 98, 10])
          \<and> lookup fs' (path @ [''1'', ''ids''])
              = Some (File [99, 10, 100, 10, 101, 10])
          \<and> to_bytes 24 BYTE_PADDING bo = Inr s
          \<and> lookup fs' (path @ [''1'', ''vectors''])
              = Some (File (s @ tobytes bo v2 @ s @ tobytes bo v3 @ s @ tobytes bo v4))
          \<and> length (tobytes bo v2) = 24 \<and> length (tobytes bo v3) = 24
          \<and> length (tobytes bo v4) = 24"
    using run[unfolded data_def] f0 f1 v1 s len unfolding i0 i1 vv by blast
qed

theorem sequential_partition_witness:
  "empty_target (Dir []) [''dump''] \<and> (1::int) \<le> 1 \<and> (0::int) \<le> 1
   \<and> nat 1 \<le> length [(ascii ''a'', None :: unit vec option, None :: byte list option)]
   \<and> fits Little (\<lambda>_::unit. 0) (ascii ''a'', None, None)
   \<and> length [0, 0, 0 :: float64] = 3
   \<and> (\<exists>fs'. export_dump_streaming Little (\<lambda>_::unit. 0) (Dir [])
            [(ascii ''a'', None, None)] [''dump''] 1 1
            = (fs', drop (nat 1) [(ascii ''a'', None, None)], None)
        \<and> (\<forall>i < nat 1.
              utf8_encode (concat (map (\<lambda>r. fst r @ [LF])
                  (shard_slice 1 1
                     [(ascii ''a'', None :: unit vec option, None :: byte list option)] i)))
                = Inr (ids_of (shard_slice 1 1
                     [(ascii ''a'', None :: unit vec option, None :: byte list option)] i))
            \<and> lookup fs' ([''dump''] @ [str (int i), ''ids''])
                = Some (File (ids_of (shard_slice 1 1 [(ascii ''a'', None :: unit vec option, None :: byte list option)] i)))
            \<and> lookup fs' ([''dump''] @ [str (int i), ''vectors''])
                = Some (File (vectors_of Little (\<lambda>_::unit. 0)
                    (shard_slice 1 1 [(ascii ''a'', None, None)] i)))
            \<and> lookup fs' ([''dump''] @ [str (int i), ''metas''])
                = Some (File (metas_of Little
                    (shard_slice 1 1 [(ascii ''a'', None :: unit vec option, None)] i)))))
   \<and> quotas 5 2 = [2, 3]
   \<and> (\<exists>fs' s. export_dump_streaming Little (\<lambda>_::unit. 0) (Dir [])
              [(ascii ''a'', Some (NdArray (Float64Array [0, 0, 0])), None),
               (ascii ''b'', Some (NdArray (Float64Array [0, 0, 0])), None),
               (ascii ''c'', Some (NdArray (Float64Array [0, 0, 0])), None),
               (ascii ''d'', Some (NdArray (Float64Array [0, 0, 0])), None),
               (ascii ''e'', Some (NdArray (Float64Array [0, 0, 0])), None)] [''dump''] 2 5
              = (fs', [], None)
          \<and> lookup fs' ([''dump''] @ [''0'', ''ids''])
              = Some (File [97, 10, 98, 10])
          \<and> lookup fs' ([''dump''] @ [''1'', ''ids''])
              = Some (File [99, 10, 100, 10, 101, 10])
          \<and> to_bytes 24 BYTE_PADDING Little = Inr s
          \<and> lookup fs' ([''dump''] @ [''1'', ''vectors''])
              = Some (File (s @ tobytes Little [0, 0, 0] @ s @ tobytes Little [0, 0, 0]
                  @ s @ tobytes Little [0, 0, 0]))
          \<and> length (tobytes Little [0, 0, 0]) = 24 \<and> length (tobytes Little [0, 0, 0]) = 24
          \<and> length (tobytes Little [0, 0, 0]) = 24)"
proof -
  have e: "empty_target (Dir []) [''dump'']"
    by (simp add: empty_target_def)
  have f: "fits Little (\<lambda>_::unit. 0) (ascii ''a'', None, None)"
    by (simp add: fits_def vec_payload_def meta_payload_def EMPTY_BYTES_def
        encodable_def utf8_encode_cp_def ascii_def)
  have h1: "empty_target (Dir []) [''dump''] \<and> (1::int) \<le> 1 \<and> (0::int) \<le> 1
      \<and> nat 1 \<le> length [(ascii ''a'', None :: unit vec option, None :: byte list option)]
      \<and> (\<forall>x \<in> set (take (nat 1) [(ascii ''a'', None, None)]). fits Little (\<lambda>_::unit. 0) x)"
    using e f by simp
  have h2: "empty_target (Dir []) [''dump''] \<and> length [0, 0, 0 :: float64] = 3
      \<and> length [0, 0, 0 :: float64] = 3 \<and> length [0, 0, 0 :: float64] = 3
      \<and> length [0, 0, 0 :: float64] = 3 \<and> length [0, 0, 0 :: float64] = 3"
    using e by simp
  note t = sequential_partition[of "Dir []" "[''dump'']" 1 1 "[(ascii ''a'', None, None)]" Little
      "\<lambda>_::unit. 0" "[0, 0, 0]" "[0, 0, 0]" "[0, 0, 0]" "[0, 0, 0]" "[0, 0, 0]"]
  show ?thesis
    using t[THEN conjunct1, rule_format, OF h1] t[THEN conjunct2, rule_format, OF h2] e f
    by simp
qed

subsection \<open>C5: a target that is not empty\<close>

text \<open>
  Claim C5 (rejection of a non-empty target). If the target path is absent and no file is
  in the way, the target is a directory after \<open>export_dump_streaming\<close>, however the call
  ends. If the target is a directory with at least one entry, the call raises the exception
  of \<open>_handle_dump\<close> for a target that contains data, and leaves the file system and the
  producer as they were: no record is pulled, nothing is created or changed.
\<close>

theorem nonempty_target_rejected:
  "(lookup fs path = None \<and> \<not> file_on_the_way fs path
      \<longrightarrow> is_dir (fst (export_dump_streaming bo astype fs data path shards size')) path)
   \<and> (lookup fs path = Some (Dir es) \<and> es \<noteq> []
      \<longrightarrow> export_dump_streaming bo astype fs data path shards size'
          = (fs, data, Some DumpPathContainsData))"
proof (intro conjI impI)
  assume "lookup fs path = None \<and> \<not> file_on_the_way fs path"
  then show "is_dir (fst (export_dump_streaming bo astype fs data path shards size')) path"
    using handle_dump_creates_root[of fs path bo astype data shards size']
    by (cases "handle_dump bo astype fs data path shards size'")
      (auto simp: export_dump_streaming_def)
next
  assume "lookup fs path = Some (Dir es) \<and> es \<noteq> []"
  then show "export_dump_streaming bo astype fs data path shards size'
          = (fs, data, Some DumpPathContainsData)"
    by (simp add: export_dump_streaming_def handle_dump_def os_path_exists_def os_listdir_def)
qed

theorem nonempty_target_rejected_witness:
  "lookup (Dir []) [''dump''] = None \<and> \<not> file_on_the_way (Dir []) [''dump'']
   \<and> is_dir (fst (export_dump_streaming Little (\<lambda>_::unit. 0) (Dir [])
         [(ascii ''a'', None, None)] [''dump''] 1 1)) [''dump'']
   \<and> lookup (Dir [(''dump'', Dir [(''x'', File [])])]) [''dump'']
       = Some (Dir [(''x'', File [])])
   \<and> [(''x'', File [])] \<noteq> []
   \<and> export_dump_streaming Little (\<lambda>_::unit. 0) (Dir [(''dump'', Dir [(''x'', File [])])])
         [(ascii ''a'', None, None)] [''dump''] 1 1
       = (Dir [(''dump'', Dir [(''x'', File [])])], [(ascii ''a'', None, None)],
          Some DumpPathContainsData)"
  using nonempty_target_rejected[of "Dir []" "[''dump'']" Little "\<lambda>_::unit. 0"
      "[(ascii ''a'', None, None)]" 1 1 "[]"]
    nonempty_target_rejected[of "Dir [(''dump'', Dir [(''x'', File [])])]" "[''dump'']"
      Little "\<lambda>_::unit. 0" "[(ascii ''a'', None, None)]" 1 1 "[(''x'', File [])]"]
  by simp

subsection \<open>C6: what is pulled from the producer\<close>

text \<open>
  Claim C6 (consumption of the producer). For a total size of at least 0, whatever the
  outcome, the producer is left with all but the first \<open>k\<close> of its records for some
  \<open>k\<close> of at most the total size: no record beyond the total size is pulled. If the
  producer holds fewer records than the total size (the target being absent or empty, with at
  least one shard, and every record one that can be written: payloads small enough for
  their length prefix, an id that can be encoded), the dump raises
  \<open>StopIteration\<close>, the exception of \<open>next\<close> on an exhausted producer, with all the
  records of the producer pulled.
\<close>

theorem producer_consumption:
  assumes "export_dump_streaming bo astype fs data path shards size' = (fs', data', e)"
    and "0 \<le> size'"
  shows "(\<exists>k \<le> nat size'. data' = drop k data)
    \<and> (empty_target fs path \<and> 1 \<le> shards \<and> int (length data) < size'
           \<and> (\<forall>x \<in> set data. fits bo astype x)
         \<longrightarrow> data' = [] \<and> e = Some StopIteration)"
proof
  show "\<exists>k \<le> nat size'. data' = drop k data"
    using handle_dump_pulled[OF assms(2) assms(1)[unfolded export_dump_streaming_def]]
    by (simp add: pulled_def)
next
  show "empty_target fs path \<and> 1 \<le> shards \<and> int (length data) < size'
           \<and> (\<forall>x \<in> set data. fits bo astype x)
         \<longrightarrow> data' = [] \<and> e = Some StopIteration"
  proof
    assume h: "empty_target fs path \<and> 1 \<le> shards \<and> int (length data) < size'
           \<and> (\<forall>x \<in> set data. fits bo astype x)"
    then obtain fs2 where
      "handle_dump bo astype fs data path shards size' = (fs2, [], Some StopIteration)"
      using handle_dump_exhausted[of fs path shards data size' bo astype] by blast
    then show "data' = [] \<and> e = Some StopIteration"
      using assms(1) by (simp add: export_dump_streaming_def)
  qed
qed

theorem producer_consumption_witness:
  "(0::int) \<le> 2 \<and> empty_target (Dir []) [''dump''] \<and> (1::int) \<le> 1
   \<and> int (length [(ascii ''a'', None, None)]) < 2
   \<and> fits Little (\<lambda>_::unit. 0) (ascii ''a'', None, None)
   \<and> (\<exists>k \<le> nat 2.
        fst (snd (export_dump_streaming Little (\<lambda>_::unit. 0) (Dir [])
          [(ascii ''a'', None, None)] [''dump''] 1 2)) = drop k [(ascii ''a'', None, None)])
   \<and> fst (snd (export_dump_streaming Little (\<lambda>_::unit. 0) (Dir [])
          [(ascii ''a'', None, None)] [''dump''] 1 2)) = []
   \<and> snd (snd (export_dump_streaming Little (\<lambda>_::unit. 0) (Dir [])
          [(ascii ''a'', None, None)] [''dump''] 1 2)) = Some StopIteration"
proof -
  have e: "empty_target (Dir []) [''dump'']"
    by (simp add: empty_target_def)
  have f: "fits Little (\<lambda>_::unit. 0) (ascii ''a'', None, None)"
    by (simp add: fits_def vec_payload_def meta_payload_def EMPTY_BYTES_def
        encodable_def utf8_encode_cp_def ascii_def)
  have p: "export_dump_streaming Little (\<lambda>_::unit. 0) (Dir [])
          [(ascii ''a'', None, None)] [''dump''] 1 2
     = (fst (export_dump_streaming Little (\<lambda>_::unit. 0) (Dir [])
          [(ascii ''a'', None, None)] [''dump''] 1 2),
        fst (snd (export_dump_streaming Little (\<lambda>_::unit. 0) (Dir [])
          [(ascii ''a'', None, None)] [''dump''] 1 2)),
        snd (snd (export_dump_streaming Little (\<lambda>_::unit. 0) (Dir [])
          [(ascii ''a'', None, None)] [''dump''] 1 2)))"
    by simp
  have h: "empty_target (Dir []) [''dump''] \<and> (1::int) \<le> 1
      \<and> int (length [(ascii ''a'', None :: unit vec option, None :: byte list option)]) < 2
      \<and> (\<forall>x \<in> set [(ascii ''a'', None, None)]. fits Little (\<lambda>_::unit. 0) x)"
    using e f by simp
  note t = producer_consumption[OF p]
  have c1: "\<exists>k \<le> nat 2.
        fst (snd (export_dump_streaming Little (\<lambda>_::unit. 0) (Dir [])
          [(ascii ''a'', None, None)] [''dump''] 1 2)) = drop k [(ascii ''a'', None, None)]"
    by (rule t[THEN conjunct1]) simp
  have c2: "fst (snd (export_dump_streaming Little (\<lambda>_::unit. 0) (Dir [])
          [(ascii ''a'', None, None)] [''dump''] 1 2)) = []
     \<and> snd (snd (export_dump_streaming Little (\<lambda>_::unit. 0) (Dir [])
          [(ascii ''a'', None, None)] [''dump''] 1 2)) = Some StopIteration"
    by (rule t[THEN conjunct2, rule_format, OF _ h]) simp
  show ?thesis
    by (intro conjI e f c1 c2[THEN conjunct1] c2[THEN conjunct2]) simp_all
qed

subsection \<open>C7: truncated artifacts\<close>

text \<open>
  Claim C7 (truncation), as the code behaves. Let an artifact hold well-formed records,
  each with a payload that is not empty (in the vectors artifact the bytes of a non-empty
  float64 array), followed by a last record whose length prefix \<open>n\<close> is followed by
  fewer than \<open>n\<close> bytes. No reader raises an error of its own for it. \<open>_metas_gen\<close>
  yields the records before it, then the bytes that are left as a shorter payload (absent
  when none is left), and ends normally. \<open>_vecs_gen\<close> does the same when the number of
  bytes left is a multiple of 8, yielding a shorter array; otherwise it ends with the
  \<open>ValueError\<close> of \<open>np.frombuffer\<close>, after the records before. (A record of length 0
  before the truncated one ends the reading there, which is the subject of C2.)
\<close>

theorem truncated_record_read:
  assumes "to_bytes n BYTE_PADDING bo = Inr s" and "length short < n"
    and "\<forall>m \<in> set ms. m \<noteq> [] \<and> length m < 256 ^ BYTE_PADDING"
    and "\<forall>ws \<in> set wss. ws \<noteq> [] \<and> length (tobytes bo ws) < 256 ^ BYTE_PADDING"
  shows "metas_loop bo (concat (map (frame bo) ms) @ s @ short)
      = (map Some ms @ [if short = [] then None else Some short], None)
    \<and> vecs_loop bo (concat (map (\<lambda>ws. frame bo (tobytes bo ws)) wss) @ s @ short)
      = (if short = [] then (map Some wss @ [None], None)
         else if length short mod 8 \<noteq> 0 then (map Some wss, Some ValueError)
         else (map Some wss @ [Some (map (\<lambda>c. of_nat (from_bytes c bo)) (chunks8 short))],
               None))"
  using metas_loop_frames[OF assms(3), of bo "s @ short"]
    vecs_loop_frames[OF assms(4), of "s @ short"]
  by (simp add: metas_loop_truncated[OF assms(1,2)] vecs_loop_truncated[OF assms(1,2)]
      frombuffer_def)

theorem truncated_record_read_witness:
  "to_bytes 5 BYTE_PADDING Little = Inr [5, 0, 0, 0] \<and> length [1, 2 :: byte] < 5
   \<and> [7 :: byte] \<noteq> [] \<and> length [7 :: byte] < 256 ^ BYTE_PADDING
   \<and> [3 :: float64] \<noteq> [] \<and> length (tobytes Little [3]) < 256 ^ BYTE_PADDING
   \<and> metas_loop Little (concat (map (frame Little) [ [7] ]) @ [5, 0, 0, 0] @ [1, 2])
      = ([Some [7], Some [1, 2]], None)
   \<and> vecs_loop Little
        (concat (map (\<lambda>ws. frame Little (tobytes Little ws)) [ [3] ]) @ [5, 0, 0, 0] @ [1, 2])
      = ([Some [3]], Some ValueError)"
proof -
  have t: "to_bytes 5 BYTE_PADDING Little = Inr [5, 0, 0, 0]"
    by (simp add: to_bytes_def BYTE_PADDING_def le_bytes_numeral)
  have l: "length (tobytes Little [3]) < 256 ^ BYTE_PADDING"
    by (simp add: tobytes_length BYTE_PADDING_def)
  show ?thesis
    using truncated_record_read[of 5 Little "[5, 0, 0, 0]" "[1, 2]" "[ [7] ]" "[ [3] ]"] t l
    by (simp add: BYTE_PADDING_def)
qed

text \<open>
  The claim as stated fails: a metas artifact whose prefix announces 5 bytes and holds 2 is
  read as one payload of 2 bytes, and a vectors artifact whose prefix announces 16 bytes and
  holds 8 is read as one array of one element, both without any error.
\<close>

theorem truncation_counterexample:
  "metas_gen Little (Dir [(''0'', Dir [(''metas'', File [5, 0, 0, 0, 1, 2])])])
       (os_path_join [] ''0'')
     = ([Some [1, 2]], None)
   \<and> vecs_gen Little
       (Dir [(''0'', Dir [(''vectors'', File [16, 0, 0, 0, 1, 0, 0, 0, 0, 0, 0, 0])])])
       (os_path_join [] ''0'')
     = ([Some [1]], None)"
  by (simp add: read_eval)

subsection \<open>C8: the number of shards\<close>

text \<open>
  Claim C8 (invalid number of shards), as the code behaves. The number of shards is not
  checked. On a target that is absent or empty, a number of shards of 0 raises
  \<open>ZeroDivisionError\<close> and a negative number of shards returns normally; in both cases
  no record is pulled and no shard is written, and the target directory is created when it
  was absent.
\<close>

theorem invalid_shard_count:
  assumes "empty_target fs path" and "shards < 1"
  shows "export_dump_streaming bo astype fs data path shards size'
    = (if lookup fs path = None then put fs path (Dir []) else fs,
       data,
       if shards = 0 then Some ZeroDivisionError else None)"
proof -
  let ?fs1 = "if lookup fs path = None then put fs path (Dir []) else fs"
  have pre: "(if \<not> os_path_exists fs path then os_makedirs fs path else Inr fs) = Inr ?fs1"
    using assms(1) by (auto simp: empty_target_def os_path_exists_def os_makedirs_def)
  have root: "lookup ?fs1 path = Some (Dir [])"
    using assms(1) by (auto simp: empty_target_def put_Nil_lookup)
  then have ls: "os_listdir ?fs1 path = Inr []"
    by (simp add: os_listdir_def)
  have r: "range_list shards = []"
    using assms(2) by (simp add: range_list_def)
  show ?thesis
    unfolding export_dump_streaming_def handle_dump_def pre
    by (simp only: sum.case ls Let_def r) simp
qed

theorem invalid_shard_count_witness:
  "empty_target (Dir []) [''dump''] \<and> (0::int) < 1
   \<and> export_dump_streaming Little (\<lambda>_::unit. 0) (Dir []) [(ascii ''a'', None, None)] [''dump''] 0 1
     = (Dir [(''dump'', Dir [])], [(ascii ''a'', None, None)], Some ZeroDivisionError)"
  using invalid_shard_count[of "Dir []" "[''dump'']" 0 Little "\<lambda>_::unit. 0"
      "[(ascii ''a'', None, None)]" 1]
  by (simp add: empty_target_def)

text \<open>
  The claim as stated fails for \<open>shards = -1\<close>: the dump returns normally, having
  created the target directory.
\<close>

theorem invalid_shard_count_counterexample:
  "export_dump_streaming Little (\<lambda>_::unit. 0) (Dir []) [(ascii ''a'', None, None)] [''dump''] (- 1) 1
     = (Dir [(''dump'', Dir [])], [(ascii ''a'', None, None)], None)"
  by (simp add: dump_eval)

subsection \<open>C9: missing artifacts\<close>

text \<open>
  Claim C9 (missing shard), as the code behaves. The import operations only build
  generators and open no file. Let \<open>pea_id\<close> name one entry of the dump directory (a
  name that is not empty, not \<open>.\<close> or \<open>..\<close>, and has no separator, as the names
  \<open>0\<close>, \<open>1\<close>, ... of the shards). A generator, once pulled, ends with an error of
  \<open>open\<close> before it yields anything when the artifact it reads is missing: the ids
  generator of each operation for the \<open>ids\<close> file, the vectors generators for
  \<open>vectors\<close>, the metadata generators for \<open>metas\<close>. The error is
  \<open>FileNotFoundError\<close>, unless a file stands in the place of a directory on the way to
  the artifact (of the shard directory, for instance): then it is
  \<open>NotADirectoryError\<close>. When the directory of the shard is missing, all three artifacts
  are.
\<close>

theorem missing_artifact:
  assumes "plain_name pea_id"
  shows "(lookup fs (path @ [pea_id, ''ids'']) = None \<longrightarrow>
      (\<exists>e. e = (if file_on_the_way fs (path @ [pea_id, ''ids''])
                 then NotADirectoryError else FileNotFoundError)
         \<and> fst (import_vectors bo path pea_id) fs = ([], Some e)
         \<and> fst (import_metas bo path pea_id) fs = ([], Some e)
         \<and> fst (import_metas_and_vectors bo path pea_id) fs = ([], Some e)))
   \<and> (lookup fs (path @ [pea_id, ''vectors'']) = None \<longrightarrow>
      (\<exists>e. e = (if file_on_the_way fs (path @ [pea_id, ''vectors''])
                 then NotADirectoryError else FileNotFoundError)
         \<and> snd (import_vectors bo path pea_id) fs = ([], Some e)
         \<and> snd (snd (import_metas_and_vectors bo path pea_id)) fs = ([], Some e)))
   \<and> (lookup fs (path @ [pea_id, ''metas'']) = None \<longrightarrow>
      (\<exists>e. e = (if file_on_the_way fs (path @ [pea_id, ''metas''])
                 then NotADirectoryError else FileNotFoundError)
         \<and> snd (import_metas bo path pea_id) fs = ([], Some e)
         \<and> fst (snd (import_metas_and_vectors bo path pea_id)) fs = ([], Some e)))
   \<and> (lookup fs (path @ [pea_id]) = None \<longrightarrow>
      lookup fs (path @ [pea_id, ''ids'']) = None
      \<and> lookup fs (path @ [pea_id, ''vectors'']) = None
      \<and> lookup fs (path @ [pea_id, ''metas'']) = None)"
proof -
  have "lookup fs (path @ [pea_id, c]) = None" if "lookup fs (path @ [pea_id]) = None" for c
    using that lookup_append[of fs "path @ [pea_id]" "[c]"] by simp
  then show ?thesis
    by (simp add: import_vectors_def import_metas_def import_metas_and_vectors_def
        ids_gen_def vecs_gen_def metas_gen_def open_r_joined_plain[OF assms] plain_names
        open_r_def missing_def)
qed

theorem missing_artifact_witness:
  "plain_name ''0''
   \<and> lookup (Dir [(''dump'', Dir [])]) ([''dump''] @ [''0'']) = None
   \<and> lookup (Dir [(''dump'', Dir [])]) ([''dump''] @ [''0'', ''ids'']) = None
   \<and> lookup (Dir [(''dump'', Dir [])]) ([''dump''] @ [''0'', ''vectors'']) = None
   \<and> lookup (Dir [(''dump'', Dir [])]) ([''dump''] @ [''0'', ''metas'']) = None
   \<and> fst (import_vectors Little [''dump''] ''0'') (Dir [(''dump'', Dir [])])
       = ([], Some FileNotFoundError)
   \<and> snd (import_vectors Little [''dump''] ''0'') (Dir [(''dump'', Dir [])])
       = ([], Some FileNotFoundError)
   \<and> snd (import_metas Little [''dump''] ''0'') (Dir [(''dump'', Dir [])])
       = ([], Some FileNotFoundError)
   \<and> fst (import_metas_and_vectors Little [''dump''] ''0'') (Dir [(''dump'', Dir [])])
       = ([], Some FileNotFoundError)
   \<and> lookup (Dir [(''dump'', Dir [(''0'', File [])])]) ([''dump''] @ [''0'', ''ids'']) = None
   \<and> fst (import_vectors Little [''dump''] ''0'') (Dir [(''dump'', Dir [(''0'', File [])])])
       = ([], Some NotADirectoryError)"
proof -
  have p: "plain_name ''0''"
    by (simp add: plain_name_def)
  show ?thesis
    using missing_artifact[OF p, of "Dir [(''dump'', Dir [])]" "[''dump'']" Little]
      missing_artifact[OF p, of "Dir [(''dump'', Dir [(''0'', File [])])]" "[''dump'']" Little]
      p
    by simp
qed

text \<open>
  The claim as stated fails: \<open>import_vectors\<close> never reads \<open>metas\<close>, so in a shard
  without that file both of its generators run to their end without error.
\<close>

theorem missing_artifact_counterexample:
  "lookup (Dir [(''dump'', Dir [(''0'',
       Dir [(''vectors'', File [8, 0, 0, 0, 1, 0, 0, 0, 0, 0, 0, 0]),
            (''ids'', File [97, 10])])])]) [''dump'', ''0'', ''metas''] = None
   \<and> fst (import_vectors Little [''dump''] ''0'')
        (Dir [(''dump'', Dir [(''0'',
           Dir [(''vectors'', File [8, 0, 0, 0, 1, 0, 0, 0, 0, 0, 0, 0]),
                (''ids'', File [97, 10])])])]) = ([ascii ''a''], None)
   \<and> snd (import_vectors Little [''dump''] ''0'')
        (Dir [(''dump'', Dir [(''0'',
           Dir [(''vectors'', File [8, 0, 0, 0, 1, 0, 0, 0, 0, 0, 0, 0]),
                (''ids'', File [97, 10])])])]) = ([Some [1]], None)"
  by (simp add: read_eval)

subsection \<open>C10: vectors given as bytes\<close>

text \<open>
  Claim C10 (a vector that is already bytes is written as it is). For a record whose
  vector is a bytes object shorter than \<open>2 ^ 32\<close> bytes, \<open>_write_shard_files\<close> appends
  to the vectors file the 4-byte length of the bytes followed by the bytes themselves,
  whatever their length; when that length is not a multiple of 8, \<open>np.frombuffer\<close>
  cannot read the payload back as float64 elements. The call returns normally when the id
  can be encoded; otherwise the vectors file is written all the same, and the call raises
  the error of the codec when it writes the id.
\<close>

theorem raw_bytes_verbatim:
  assumes "\<not> file_on_the_way fs sp" and "length b < 256 ^ BYTE_PADDING"
    and "length (meta_payload meta) < 256 ^ BYTE_PADDING"
  shows "\<exists>s fs'.
      to_bytes (length b) BYTE_PADDING bo = Inr s
    \<and> write_shard_files bo astype (put fs sp (shard_dir V M I))
          ((id', Some (RawBytes b), meta) # data')
          (sp @ [''ids'']) (sp @ [''metas'']) (sp @ [''vectors''])
        = (fs', data',
           case utf8_encode (id' @ [LF]) of Inl e \<Rightarrow> Some e | Inr line \<Rightarrow> None)
    \<and> lookup fs' (sp @ [''vectors'']) = Some (File (V @ s @ b))
    \<and> (length b mod 8 \<noteq> 0 \<longrightarrow> frombuffer bo b = Inl ValueError)"
proof -
  have p: "vec_payload bo astype (Some (RawBytes b)) = b"
    by (simp add: vec_payload_def)
  obtain s where s: "to_bytes (length b) BYTE_PADDING bo = Inr s" "frame bo b = s @ b"
    using frame_fits[OF assms(2)] by blast
  define fs' where "fs' = fst (write_shard_files bo astype (put fs sp (shard_dir V M I))
          ((id', Some (RawBytes b), meta) # data')
          (sp @ [''ids'']) (sp @ [''metas'']) (sp @ [''vectors'']))"
  note step = write_shard_files_step[OF assms(1), of bo astype "Some (RawBytes b)" meta V M I
      id' data', unfolded p, OF assms(2,3)]
  have w: "write_shard_files bo astype (put fs sp (shard_dir V M I))
          ((id', Some (RawBytes b), meta) # data')
          (sp @ [''ids'']) (sp @ [''metas'']) (sp @ [''vectors''])
        = (fs', data',
           case utf8_encode (id' @ [LF]) of Inl e \<Rightarrow> Some e | Inr line \<Rightarrow> None)"
    unfolding fs'_def step by (simp split: sum.splits)
  have l: "lookup fs' (sp @ [''vectors'']) = Some (File (V @ s @ b))"
    unfolding fs'_def step using lookup_put[OF assms(1)]
    by (simp add: shard_dir_def s(2) split: sum.splits)
  have "length b mod 8 \<noteq> 0 \<longrightarrow> frombuffer bo b = Inl ValueError"
    by (simp add: frombuffer_def)
  with s(1) w l show ?thesis
    by blast
qed

theorem raw_bytes_verbatim_witness:
  "\<not> file_on_the_way (Dir []) [''0''] \<and> length [1, 2, 3 :: byte] < 256 ^ BYTE_PADDING
   \<and> length (meta_payload None) < 256 ^ BYTE_PADDING
   \<and> length [1, 2, 3 :: byte] mod 8 \<noteq> 0
   \<and> (\<exists>s fs'.
      to_bytes (length [1, 2, 3 :: byte]) BYTE_PADDING Little = Inr s
    \<and> write_shard_files Little (\<lambda>_::unit. 0) (put (Dir []) [''0''] (shard_dir [] [] []))
          [(ascii ''a'', Some (RawBytes [1, 2, 3]), None)]
          ([''0''] @ [''ids'']) ([''0''] @ [''metas'']) ([''0''] @ [''vectors'']) = (fs', [], None)
    \<and> lookup fs' ([''0''] @ [''vectors'']) = Some (File ([] @ s @ [1, 2, 3]))
    \<and> frombuffer Little [1, 2, 3] = Inl ValueError)"
  using raw_bytes_verbatim[of "Dir []" "[''0'']" "[1, 2, 3]" None Little "\<lambda>_::unit. 0"
      "[]" "[]" "[]" "ascii ''a''" "[]"]
  by (simp add: BYTE_PADDING_def meta_payload_def EMPTY_BYTES_def utf8_encode_cp_def
      ascii_def LF_def)

end
